theory Spec2Isabelle
  imports Main "HOL-Library.Sublist" "HOL-Library.Multiset"
begin

section \<open>The data model of CMetaInterval\<close>

text \<open>
  The embedding follows \<^verbatim>\<open>direct/src/interval/cMetaInterval.cxx\<close>.

  Times. The source converts every floating-point time with \<^verbatim>\<open>double_to_int_time\<close> as soon
  as it receives it and compares integer ticks only. Both conversions are declared in the
  header, which is not part of the sources at hand, so the embedding works in ticks
  throughout: a relative time, a duration and a playback time \<open>t\<close> are given as the
  \<^typ>\<open>int\<close> that \<^verbatim>\<open>double_to_int_time\<close> returns for them, and \<^verbatim>\<open>_duration\<close> and \<^verbatim>\<open>_curr_t\<close>
  hold ticks as well. Ticks are mathematical integers: signed overflow of the C++ \<^verbatim>\<open>int\<close>
  is undefined behaviour and is not modelled.

  Pointers. A \<^verbatim>\<open>PlaybackEvent *\<close> is the index of the event in the list of events allocated
  by the current compilation (\<open>arena\<close>); \<^verbatim>\<open>_events\<close> and the active sets hold such indices.
  A \<^verbatim>\<open>pset<PlaybackEvent *>\<close> iterates in address order; the addresses are those that the
  heap returned for the events, which the state records.

  Assertions. \<^verbatim>\<open>nassertv(c)\<close> and \<^verbatim>\<open>nassertr(c, v)\<close> report a failed condition and return
  from the enclosing function (with \<open>v\<close>); the embedding counts the report in
  \<open>assert_failures\<close> and returns at the same place.
\<close>

datatype RelativeStart = RS_previous_end | RS_previous_begin | RS_level_begin

datatype DefType = DT_c_interval | DT_ext_index | DT_push_level | DT_pop_level

datatype PlaybackEventType = PET_begin | PET_end | PET_instant

datatype EventType =
    ET_initialize | ET_instant | ET_step | ET_finalize
  | ET_reverse_initialize | ET_reverse_instant | ET_reverse_finalize

text \<open>
  A native timed action, as far as the scheduler reads it: its identity, the ticks of
  \<^verbatim>\<open>get_duration()\<close> and the value of \<^verbatim>\<open>get_open_ended()\<close>.
\<close>

record CInterval =
  ci_id :: nat
  ci_duration :: int
  ci_open_ended :: bool

text \<open>The handle \<^verbatim>\<open>_c_interval\<close> is \<open>None\<close> for the null pointer.\<close>

record IntervalDef =
  def_type :: DefType
  c_interval :: "CInterval option"
  ext_index :: int
  ext_name :: string
  ext_duration :: int
  ext_open_ended :: bool
  rel_time :: int
  rel_to :: RelativeStart
  actual_begin_time :: int

datatype PlaybackEvent =
  PlaybackEvent (ev_time: int) (ev_n: nat) (ev_type: PlaybackEventType) (ev_begin_event: nat)

datatype EventQueueEntry =
  EventQueueEntry (entry_n: nat) (entry_event_type: EventType) (entry_time: int)

text \<open>
  The scheduler. An event pointer is the index of the event in \<open>arena\<close>, the events
  allocated by \<^verbatim>\<open>new PlaybackEvent\<close> since the last \<^verbatim>\<open>clear_events\<close>, in the order of
  their allocation. \<open>addresses\<close> holds the heap address of every event of the arena, which
  is what a \<^verbatim>\<open>pset\<close> of event pointers is ordered by. The addresses are the choice of the
  heap, not of the program: \<open>allocator\<close> is the sequence of the addresses that the coming
  calls of \<^verbatim>\<open>new\<close> return. A heap gives distinct addresses to the events that are live
  together, so that two pointers are equal exactly when the indices are.

  \<open>invoked\<close> logs the synchronous \<^verbatim>\<open>set_t\<close> calls made on native actions, each
  as the entry that would otherwise have been queued; \<open>parent_links\<close> holds one \<open>ci_id\<close> for
  every occurrence of this scheduler in a native action's \<^verbatim>\<open>_parents\<close>; \<open>warnings\<close> counts the
  messages written to \<^verbatim>\<open>interval_cat.warning()\<close>.
\<close>

record CMetaInterval =
  defs :: "IntervalDef list"
  current_nesting_level :: int
  next_event_index :: nat
  arena :: "PlaybackEvent list"
  addresses :: "nat list"
  allocator :: "nat \<Rightarrow> nat"
  events :: "nat list"
  active :: "nat list"
  event_queue :: "EventQueueEntry list"
  invoked :: "EventQueueEntry list"
  dirty :: bool
  end_time :: int
  duration :: int
  curr_t :: int
  parent_links :: "nat list"
  warnings :: nat
  assert_failures :: nat

definition IntervalDef_new :: IntervalDef where
  "IntervalDef_new =
     \<lparr>def_type = DT_pop_level, c_interval = None, ext_index = 0, ext_name = [],
      ext_duration = 0, ext_open_ended = False, rel_time = 0, rel_to = RS_previous_end,
      actual_begin_time = 0\<rparr>"

text \<open>
  The constructor: an empty schedule of duration 0, on a heap whose allocations return the
  addresses \<open>heap 0\<close>, \<open>heap 1\<close>, and so on.
\<close>

definition CMetaInterval_new :: "(nat \<Rightarrow> nat) \<Rightarrow> CMetaInterval" where
  "CMetaInterval_new heap =
     \<lparr>defs = [], current_nesting_level = 0, next_event_index = 0, arena = [],
      addresses = [], allocator = heap, events = [],
      active = [], event_queue = [], invoked = [], dirty = False, end_time = 0,
      duration = 0, curr_t = 0, parent_links = [], warnings = 0, assert_failures = 0\<rparr>"

definition assert_failure :: "CMetaInterval \<Rightarrow> CMetaInterval" where
  "assert_failure s = s\<lparr>assert_failures := Suc (assert_failures s)\<rparr>"

definition mark_dirty :: "CMetaInterval \<Rightarrow> CMetaInterval" where
  "mark_dirty s = s\<lparr>dirty := True\<rparr>"

definition clear_events :: "CMetaInterval \<Rightarrow> CMetaInterval" where
  "clear_events s = s\<lparr>arena := [], addresses := [], events := [], active := []\<rparr>"

section \<open>The definition list\<close>

definition push_level :: "int \<Rightarrow> RelativeStart \<Rightarrow> CMetaInterval \<Rightarrow> int \<times> CMetaInterval" where
  "push_level rel_time' rel_to' s =
     (let d = IntervalDef_new\<lparr>def_type := DT_push_level, rel_time := rel_time', rel_to := rel_to'\<rparr>;
          s1 = s\<lparr>defs := defs s @ [d],
                 current_nesting_level := current_nesting_level s + 1\<rparr>;
          s2 = mark_dirty s1
      in (int (length (defs s2)) - 1, s2))"

definition add_c_interval ::
  "CInterval option \<Rightarrow> int \<Rightarrow> RelativeStart \<Rightarrow> CMetaInterval \<Rightarrow> int \<times> CMetaInterval" where
  "add_c_interval c_interval' rel_time' rel_to' s =
     (case c_interval' of
        None \<Rightarrow> (- 1, assert_failure s)
      | Some c \<Rightarrow>
          (let d = IntervalDef_new\<lparr>def_type := DT_c_interval, c_interval := Some c,
                                   rel_time := rel_time', rel_to := rel_to'\<rparr>;
               s1 = s\<lparr>defs := defs s @ [d], parent_links := parent_links s @ [ci_id c]\<rparr>;
               s2 = mark_dirty s1
           in (int (length (defs s2)) - 1, s2)))"

definition add_ext_index ::
  "int \<Rightarrow> string \<Rightarrow> int \<Rightarrow> bool \<Rightarrow> int \<Rightarrow> RelativeStart \<Rightarrow> CMetaInterval \<Rightarrow> int \<times> CMetaInterval" where
  "add_ext_index ext_index' name duration' open_ended rel_time' rel_to' s =
     (let d = IntervalDef_new\<lparr>def_type := DT_ext_index, ext_index := ext_index',
                              ext_name := name, ext_duration := duration',
                              ext_open_ended := open_ended,
                              rel_time := rel_time', rel_to := rel_to'\<rparr>;
          s1 = s\<lparr>defs := defs s @ [d]\<rparr>;
          s2 = mark_dirty s1
      in (int (length (defs s2)) - 1, s2))"

definition pop_level :: "CMetaInterval \<Rightarrow> int \<times> CMetaInterval" where
  "pop_level s =
     (if \<not> current_nesting_level s > 0 then (- 1, assert_failure s)
      else
        (let d = IntervalDef_new\<lparr>def_type := DT_pop_level\<rparr>;
             s1 = s\<lparr>defs := defs s @ [d],
                    current_nesting_level := current_nesting_level s - 1\<rparr>;
             s2 = mark_dirty s1
         in (int (length (defs s2)) - 1, s2)))"

text \<open>
  The loop of \<^verbatim>\<open>clear_intervals\<close> over the definitions: every native action loses one
  back-reference to this scheduler; the result is \<open>False\<close> where \<^verbatim>\<open>find\<close> does not find one,
  and the function returns there.
\<close>

fun remove_parent_links :: "IntervalDef list \<Rightarrow> nat list \<Rightarrow> nat list \<times> bool" where
  "remove_parent_links [] ps = (ps, True)"
| "remove_parent_links (d # ds) ps =
     (case c_interval d of
        None \<Rightarrow> remove_parent_links ds ps
      | Some c \<Rightarrow>
          if ci_id c \<in> set ps then remove_parent_links ds (remove1 (ci_id c) ps)
          else (ps, False))"

definition clear_intervals :: "CMetaInterval \<Rightarrow> CMetaInterval" where
  "clear_intervals s =
     (if event_queue s \<noteq> [] then assert_failure s
      else
        (let s1 = clear_events s;
             (ps, found) = remove_parent_links (defs s1) (parent_links s1);
             s2 = s1\<lparr>parent_links := ps\<rparr>
         in if \<not> found then assert_failure s2
            else s2\<lparr>defs := [], current_nesting_level := 0, next_event_index := 0\<rparr>))"

section \<open>The deferred queue\<close>

text \<open>
  \<^verbatim>\<open>enqueue_event\<close>. A definition of type \<^verbatim>\<open>DT_c_interval\<close> carries a handle that
  \<^verbatim>\<open>add_c_interval\<close> has checked; the embedding reports the null handle, which the source
  would dereference, as a failure.
\<close>

definition enqueue_event ::
  "nat \<Rightarrow> EventType \<Rightarrow> bool \<Rightarrow> int \<Rightarrow> CMetaInterval \<Rightarrow> CMetaInterval" where
  "enqueue_event n event_type is_initial time s =
     (if \<not> n < length (defs s) then assert_failure s
      else
        (let d = defs s ! n in
         case def_type d of
           DT_c_interval \<Rightarrow>
             (case c_interval d of
                None \<Rightarrow> assert_failure s
              | Some c \<Rightarrow>
                  if is_initial \<and> (event_type = ET_instant \<or> event_type = ET_reverse_instant)
                     \<and> \<not> ci_open_ended c
                  then s
                  else if event_queue s = []
                  then s\<lparr>invoked := invoked s @ [EventQueueEntry n event_type time]\<rparr>
                  else s\<lparr>event_queue := event_queue s @ [EventQueueEntry n event_type time]\<rparr>)
         | DT_ext_index \<Rightarrow>
             if is_initial \<and> (event_type = ET_instant \<or> event_type = ET_reverse_instant)
                \<and> \<not> ext_open_ended d
             then s
             else s\<lparr>event_queue := event_queue s @ [EventQueueEntry n event_type time]\<rparr>
         | DT_push_level \<Rightarrow> assert_failure s
         | DT_pop_level \<Rightarrow> assert_failure s))"

function service_event_queue :: "CMetaInterval \<Rightarrow> bool \<times> CMetaInterval" where
  "service_event_queue s =
     (case event_queue s of
        [] \<Rightarrow> (False, s)
      | entry # rest \<Rightarrow>
          if \<not> entry_n entry < length (defs s) then (False, assert_failure s)
          else
            (let d = defs s ! entry_n entry in
             case def_type d of
               DT_c_interval \<Rightarrow>
                 (case c_interval d of
                    None \<Rightarrow> (False, assert_failure s)
                  | Some c \<Rightarrow>
                      service_event_queue
                        (s\<lparr>invoked := invoked s @ [entry], event_queue := rest\<rparr>))
             | DT_ext_index \<Rightarrow> (True, s)
             | DT_push_level \<Rightarrow> (False, assert_failure s)
             | DT_pop_level \<Rightarrow> (False, assert_failure s)))"
  by pat_completeness auto
termination
  by (relation "measure (\<lambda>s. length (event_queue s))") auto

text \<open>An entry whose target is a native action, and one whose target is an external action.\<close>

definition native_entry :: "CMetaInterval \<Rightarrow> EventQueueEntry \<Rightarrow> bool" where
  "native_entry s e =
     (entry_n e < length (defs s) \<and> def_type (defs s ! entry_n e) = DT_c_interval
      \<and> c_interval (defs s ! entry_n e) \<noteq> None)"

definition external_entry :: "CMetaInterval \<Rightarrow> EventQueueEntry \<Rightarrow> bool" where
  "external_entry s e =
     (entry_n e < length (defs s) \<and> def_type (defs s ! entry_n e) = DT_ext_index)"

section \<open>The timeline compiler\<close>

definition get_begin_time :: "IntervalDef \<Rightarrow> int \<Rightarrow> int \<Rightarrow> int \<Rightarrow> int" where
  "get_begin_time d level_begin previous_begin previous_end =
     (case rel_to d of
        RS_previous_end \<Rightarrow> previous_end + rel_time d
      | RS_previous_begin \<Rightarrow> previous_begin + rel_time d
      | RS_level_begin \<Rightarrow> level_begin + rel_time d)"

definition set_actual_begin_time :: "nat \<Rightarrow> int \<Rightarrow> CMetaInterval \<Rightarrow> CMetaInterval" where
  "set_actual_begin_time n t s =
     s\<lparr>defs := (defs s)[n := (defs s ! n)\<lparr>actual_begin_time := t\<rparr>]\<rparr>"

definition new_PlaybackEvent ::
  "int \<Rightarrow> nat \<Rightarrow> PlaybackEventType \<Rightarrow> CMetaInterval \<Rightarrow> nat \<times> CMetaInterval" where
  "new_PlaybackEvent time n type s =
     (length (arena s),
      s\<lparr>arena := arena s @ [PlaybackEvent time n type (length (arena s))],
        addresses := addresses s @ [allocator s 0],
        allocator := (\<lambda>i. allocator s (Suc i))\<rparr>)"

definition set_begin_event :: "nat \<Rightarrow> PlaybackEvent \<Rightarrow> PlaybackEvent" where
  "set_begin_event b ev = PlaybackEvent (ev_time ev) (ev_n ev) (ev_type ev) b"

text \<open>
  The events of one action, as both the \<^verbatim>\<open>DT_c_interval\<close> and the \<^verbatim>\<open>DT_ext_index\<close> case
  of \<^verbatim>\<open>recompute_level\<close> push them. The constructor of \<^verbatim>\<open>PlaybackEvent\<close> makes
  \<^verbatim>\<open>_begin_event\<close> point to the event itself.
\<close>

definition push_events :: "int \<Rightarrow> int \<Rightarrow> nat \<Rightarrow> CMetaInterval \<Rightarrow> CMetaInterval" where
  "push_events begin_time end_time' n s =
     (if begin_time = end_time' then
        (let (instant, s1) = new_PlaybackEvent begin_time n PET_instant s
         in s1\<lparr>events := events s1 @ [instant]\<rparr>)
      else
        (let (begin, s1) = new_PlaybackEvent begin_time n PET_begin s;
             (end, s2) = new_PlaybackEvent end_time' n PET_end s1;
             s3 = s2\<lparr>arena := (arena s2)[end := set_begin_event begin (arena s2 ! end)]\<rparr>
         in s3\<lparr>events := events s3 @ [begin, end]\<rparr>))"

lemma length_defs_set_actual_begin_time [simp]:
  "length (defs (set_actual_begin_time n t s)) = length (defs s)"
  by (simp add: set_actual_begin_time_def)

lemma defs_push_events [simp]: "defs (push_events b e n s) = defs s"
  by (simp add: push_events_def new_PlaybackEvent_def Let_def)

text \<open>
  \<^verbatim>\<open>recompute_level\<close>. \<open>recompute_loop\<close> is its \<^verbatim>\<open>while\<close> loop, with the local variables
  \<^verbatim>\<open>previous_begin\<close>, \<^verbatim>\<open>previous_end\<close> and the reference \<^verbatim>\<open>level_end\<close> as arguments; the
  result is the returned index, the final \<^verbatim>\<open>level_end\<close> and the state. The recursive call
  for \<^verbatim>\<open>DT_push_level\<close> enters the loop of the nested level with all three set to
  \<^verbatim>\<open>level_begin\<close>. The \<^verbatim>\<open>DT_pop_level\<close> case of the \<^verbatim>\<open>switch\<close> is the \<^verbatim>\<open>nassertr(false, ...)\<close>;
  a native definition without a handle is reported in the same way.
\<close>

function recompute_loop ::
  "nat \<Rightarrow> int \<Rightarrow> int \<Rightarrow> int \<Rightarrow> int \<Rightarrow> CMetaInterval \<Rightarrow> nat \<times> int \<times> CMetaInterval" where
  "recompute_loop n level_begin previous_begin previous_end level_end s =
     (if n < length (defs s) \<and> def_type (defs s ! n) \<noteq> DT_pop_level then
        (let d = defs s ! n;
             begin_time = get_begin_time d level_begin previous_begin previous_end
         in case def_type d of
           DT_c_interval \<Rightarrow>
             (case c_interval d of
                None \<Rightarrow> (length (defs s), level_end, assert_failure s)
              | Some c \<Rightarrow>
                  (let s1 = set_actual_begin_time n begin_time s;
                       end_time' = begin_time + ci_duration c;
                       s2 = push_events begin_time end_time' n s1
                   in recompute_loop (n + 1) level_begin begin_time end_time'
                        (max level_end end_time') s2))
         | DT_ext_index \<Rightarrow>
             (let s1 = set_actual_begin_time n begin_time s;
                  end_time' = begin_time + ext_duration d;
                  s2 = push_events begin_time end_time' n s1
              in recompute_loop (n + 1) level_begin begin_time end_time'
                   (max level_end end_time') s2)
         | DT_push_level \<Rightarrow>
             (let s1 = set_actual_begin_time n begin_time s;
                  (n1, end_time', s2) =
                     recompute_loop (n + 1) begin_time begin_time begin_time begin_time s1
              in recompute_loop (n1 + 1) level_begin begin_time end_time'
                   (max level_end end_time') s2)
         | DT_pop_level \<Rightarrow> (length (defs s), level_end, assert_failure s))
      else (n, level_end,
            if n < length (defs s) then set_actual_begin_time n level_end s else s))"
  by pat_completeness auto

lemma recompute_loop_progress:
  "recompute_loop_dom (n, lb, pb, pe, le, s) \<Longrightarrow>
   recompute_loop n lb pb pe le s = (n', le', s') \<Longrightarrow>
   n \<le> n' \<and> length (defs s') = length (defs s)"
proof (induction n lb pb pe le s arbitrary: n' le' s' rule: recompute_loop.pinduct)
  case (1 n lb pb pe le s)
  note dom = "1.hyps"
  note eq = "1.prems"
  show ?case
  proof (cases "n < length (defs s) \<and> def_type (defs s ! n) \<noteq> DT_pop_level")
    case False
    then show ?thesis
      using eq by (auto simp: recompute_loop.psimps [OF dom])
  next
    case True
    define d where "d = defs s ! n"
    define bt where "bt = get_begin_time d lb pb pe"
    define s1 where "s1 = set_actual_begin_time n bt s"
    show ?thesis
    proof (cases "def_type d")
      case DT_c_interval
      show ?thesis
      proof (cases "c_interval d")
        case None
        then show ?thesis
          using eq True DT_c_interval
          by (auto simp: recompute_loop.psimps [OF dom] d_def [symmetric] assert_failure_def)
      next
        case (Some c)
        have r: "recompute_loop (n + 1) lb bt (bt + ci_duration c) (max le (bt + ci_duration c))
                   (push_events bt (bt + ci_duration c) n s1) = (n', le', s')"
          using eq True DT_c_interval Some
          by (simp add: recompute_loop.psimps [OF dom] d_def [symmetric] bt_def [symmetric]
              s1_def [symmetric] Let_def)
        have "n + 1 \<le> n' \<and> length (defs s') = length (defs (push_events bt (bt + ci_duration c) n s1))"
          using "1.IH"(1) [OF True d_def bt_def DT_c_interval Some s1_def refl refl r] .
        then show ?thesis by (simp add: s1_def)
      qed
    next
      case DT_ext_index
      have r: "recompute_loop (n + 1) lb bt (bt + ext_duration d) (max le (bt + ext_duration d))
                 (push_events bt (bt + ext_duration d) n s1) = (n', le', s')"
        using eq True DT_ext_index
        by (simp add: recompute_loop.psimps [OF dom] d_def [symmetric] bt_def [symmetric]
            s1_def [symmetric] Let_def)
      have "n + 1 \<le> n' \<and> length (defs s') = length (defs (push_events bt (bt + ext_duration d) n s1))"
        using "1.IH"(2) [OF True d_def bt_def DT_ext_index s1_def refl refl r] .
      then show ?thesis by (simp add: s1_def)
    next
      case DT_push_level
      obtain n1 et s2 where inner: "recompute_loop (n + 1) bt bt bt bt s1 = (n1, et, s2)"
        by (cases "recompute_loop (n + 1) bt bt bt bt s1") auto
      have r: "recompute_loop (n1 + 1) lb bt et (max le et) s2 = (n', le', s')"
        using eq True DT_push_level inner
        by (simp add: recompute_loop.psimps [OF dom] d_def [symmetric] bt_def [symmetric]
            s1_def [symmetric] Let_def)
      have i1: "n + 1 \<le> n1 \<and> length (defs s2) = length (defs s1)"
        using "1.IH"(3) [OF True d_def bt_def DT_push_level s1_def inner] .
      have i2: "n1 + 1 \<le> n' \<and> length (defs s') = length (defs s2)"
        using "1.IH"(4) [OF True d_def bt_def DT_push_level s1_def inner [symmetric] refl refl r] .
      show ?thesis using i1 i2 by (simp add: s1_def)
    next
      case DT_pop_level
      then show ?thesis using True by (simp add: d_def)
    qed
  qed
qed

termination recompute_loop
proof (relation "measure (\<lambda>(n, lb, pb, pe, le, s). length (defs s) - n)", goal_cases)
  case 1
  show ?case by simp
next
  case (2 n lb pb pe le s)
  then show ?case by auto
next
  case (3 n lb pb pe le s)
  then show ?case by auto
next
  case (4 n lb pb pe le s)
  then show ?case by auto
next
  case (5 n lb pb pe le s d bt s1 x n1 y et s2)
  have "recompute_loop (n + 1) bt bt bt bt s1 = (n1, et, s2)"
    using 5 by simp
  moreover have "recompute_loop_dom (n + 1, bt, bt, bt, bt, s1)"
    using 5 by simp
  ultimately have "n + 1 \<le> n1 \<and> length (defs s2) = length (defs s1)"
    using recompute_loop_progress by blast
  then show ?case
    using 5 by auto
qed

declare recompute_loop.simps [simp del]

definition recompute_level :: "nat \<Rightarrow> int \<Rightarrow> CMetaInterval \<Rightarrow> nat \<times> int \<times> CMetaInterval" where
  "recompute_level n level_begin s =
     recompute_loop n level_begin level_begin level_begin level_begin s"

text \<open>
  \<^verbatim>\<open>do_recompute\<close>. \<^verbatim>\<open>IndirectLess<PlaybackEvent>\<close> compares the events pointed to, by
  their time; \<^verbatim>\<open>stable_sort\<close> is the stable insertion sort \<^const>\<open>sort_key\<close>.
\<close>

definition do_recompute :: "CMetaInterval \<Rightarrow> CMetaInterval" where
  "do_recompute s =
     (let s1 = clear_events (s\<lparr>dirty := False\<rparr>);
          (n, level_end, s2) = recompute_level 0 0 s1;
          s3 = s2\<lparr>end_time := level_end\<rparr>;
          s4 = (if int n \<noteq> int (length (defs s3))
                then s3\<lparr>warnings := Suc (warnings s3)\<rparr> else s3);
          s5 = s4\<lparr>events := sort_key (\<lambda>p. ev_time (arena s4 ! p)) (events s4)\<rparr>
      in s5\<lparr>duration := end_time s5\<rparr>)"

section \<open>Compiled events are up to date\<close>

text \<open>
  \<^verbatim>\<open>recompute()\<close> and \<^verbatim>\<open>get_duration()\<close> are inherited; the first runs \<^verbatim>\<open>do_recompute\<close> when the
  schedule is dirty (section 4.1 of the specification: the events are rebuilt whenever
  dirty, nothing happens otherwise), the second reads \<^verbatim>\<open>_duration\<close>.
\<close>

definition recompute :: "CMetaInterval \<Rightarrow> CMetaInterval" where
  "recompute s = (if dirty s then do_recompute s else s)"

definition get_duration :: "CMetaInterval \<Rightarrow> int" where
  "get_duration s = duration s"

section \<open>The active sets\<close>

text \<open>
  \<^verbatim>\<open>ActiveEvents\<close> is a \<^verbatim>\<open>pset\<close> of event pointers, ordered by the pointers themselves,
  that is by heap address: the list holds the elements in the order in which the iterator
  of the set meets them. \<^verbatim>\<open>insert\<close> tells whether the element is new, \<^verbatim>\<open>erase\<close> returns the
  number of elements removed.
\<close>

definition address_of :: "CMetaInterval \<Rightarrow> nat \<Rightarrow> nat" where
  "address_of s p = addresses s ! p"

definition pset_insert :: "(nat \<Rightarrow> nat) \<Rightarrow> nat \<Rightarrow> nat list \<Rightarrow> nat list \<times> bool" where
  "pset_insert addr p xs =
     (if p \<in> set xs then (xs, False) else (insort_key addr p xs, True))"

definition pset_erase :: "nat \<Rightarrow> nat list \<Rightarrow> nat list \<times> nat" where
  "pset_erase p xs = (removeAll p xs, if p \<in> set xs then 1 else 0)"

section \<open>Playback\<close>

text \<open>
  \<^verbatim>\<open>do_event_forward\<close>. The state and the set \<^verbatim>\<open>new_active\<close> of the current pass are threaded
  together. Where the source calls \<^verbatim>\<open>enqueue_event\<close> with three arguments, the time is the
  default 0 of the declaration.
\<close>

definition do_event_forward ::
  "nat \<Rightarrow> bool \<Rightarrow> CMetaInterval \<times> nat list \<Rightarrow> CMetaInterval \<times> nat list" where
  "do_event_forward event is_initial = (\<lambda>(s, new_active).
     let ev = arena s ! event in
     case ev_type ev of
       PET_begin \<Rightarrow>
         if ev_begin_event ev \<noteq> event then (assert_failure s, new_active)
         else if event \<in> set (active s) then (assert_failure s, new_active)
         else
           (let (new_active1, okflag) = pset_insert (address_of s) event new_active
            in if \<not> okflag then (assert_failure s, new_active1) else (s, new_active1))
     | PET_end \<Rightarrow>
         (let (new_active1, erase_count) = pset_erase (ev_begin_event ev) new_active
          in if erase_count \<noteq> 0 then
               (let s1 = enqueue_event (ev_n ev) ET_instant is_initial 0 s
                in (if erase_count \<noteq> 1 then assert_failure s1 else s1, new_active1))
             else
               (let (active1, erase_count1) = pset_erase (ev_begin_event ev) (active s);
                    s1 = enqueue_event (ev_n ev) ET_finalize is_initial 0 (s\<lparr>active := active1\<rparr>)
                in (if erase_count1 \<noteq> 1 then assert_failure s1 else s1, new_active1)))
     | PET_instant \<Rightarrow>
         if ev_begin_event ev \<noteq> event then (assert_failure s, new_active)
         else if event \<in> set new_active then (assert_failure s, new_active)
         else if event \<in> set (active s) then (assert_failure s, new_active)
         else (enqueue_event (ev_n ev) ET_instant is_initial 0 s, new_active))"

definition do_event_reverse ::
  "nat \<Rightarrow> bool \<Rightarrow> CMetaInterval \<times> nat list \<Rightarrow> CMetaInterval \<times> nat list" where
  "do_event_reverse event is_initial = (\<lambda>(s, new_active).
     let ev = arena s ! event in
     case ev_type ev of
       PET_begin \<Rightarrow>
         if ev_begin_event ev \<noteq> event then (assert_failure s, new_active)
         else
           (let (new_active1, erase_count) = pset_erase event new_active
            in if erase_count \<noteq> 0 then
                 (let s1 = enqueue_event (ev_n ev) ET_reverse_instant is_initial 0 s
                  in (if erase_count \<noteq> 1 then assert_failure s1 else s1, new_active1))
               else
                 (let (active1, erase_count1) = pset_erase (ev_begin_event ev) (active s);
                      s1 = enqueue_event (ev_n ev) ET_reverse_finalize is_initial 0
                             (s\<lparr>active := active1\<rparr>)
                  in (if erase_count1 \<noteq> 1 then assert_failure s1 else s1, new_active1)))
     | PET_end \<Rightarrow>
         if ev_begin_event ev \<in> set new_active then (assert_failure s, new_active)
         else
           (let (new_active1, okflag) = pset_insert (address_of s) (ev_begin_event ev) new_active
            in if \<not> okflag then (assert_failure s, new_active1) else (s, new_active1))
     | PET_instant \<Rightarrow>
         if ev_begin_event ev \<noteq> event then (assert_failure s, new_active)
         else if event \<in> set (active s) then (assert_failure s, new_active)
         else if event \<in> set new_active then (assert_failure s, new_active)
         else (enqueue_event (ev_n ev) ET_reverse_instant is_initial 0 s, new_active))"

text \<open>
  The two loops of \<^verbatim>\<open>finish_events_forward\<close> and \<^verbatim>\<open>finish_events_reverse\<close>: a step for every
  event of \<^verbatim>\<open>_active\<close>, then an initialize (of the given type) for every event of
  \<^verbatim>\<open>new_active\<close>, which moves to \<^verbatim>\<open>_active\<close>; a failed insertion returns.
\<close>

fun step_active :: "int \<Rightarrow> nat list \<Rightarrow> CMetaInterval \<Rightarrow> CMetaInterval" where
  "step_active now [] s = s"
| "step_active now (event # rest) s =
     step_active now rest
       (enqueue_event (ev_n (arena s ! event)) ET_step False
          (now - ev_time (arena s ! event)) s)"

fun initialize_new_active ::
  "EventType \<Rightarrow> int \<Rightarrow> nat list \<Rightarrow> CMetaInterval \<Rightarrow> CMetaInterval" where
  "initialize_new_active event_type now [] s = s"
| "initialize_new_active event_type now (event # rest) s =
     (let s1 = enqueue_event (ev_n (arena s ! event)) event_type False
                 (now - ev_time (arena s ! event)) s;
          (active1, inserted) = pset_insert (address_of s1) event (active s1);
          s2 = s1\<lparr>active := active1\<rparr>
      in if \<not> inserted then assert_failure s2
         else initialize_new_active event_type now rest s2)"

definition finish_events_forward :: "int \<Rightarrow> nat list \<Rightarrow> CMetaInterval \<Rightarrow> CMetaInterval" where
  "finish_events_forward now new_active s =
     initialize_new_active ET_initialize now new_active (step_active now (active s) s)"

definition finish_events_reverse :: "int \<Rightarrow> nat list \<Rightarrow> CMetaInterval \<Rightarrow> CMetaInterval" where
  "finish_events_reverse now new_active s =
     initialize_new_active ET_reverse_initialize now new_active (step_active now (active s) s)"

text \<open>What the event handlers leave alone.\<close>

definition same_schedule :: "CMetaInterval \<Rightarrow> CMetaInterval \<Rightarrow> bool" where
  "same_schedule s s' =
     (defs s' = defs s \<and> arena s' = arena s \<and> events s' = events s
      \<and> addresses s' = addresses s \<and> allocator s' = allocator s
      \<and> next_event_index s' = next_event_index s
      \<and> current_nesting_level s' = current_nesting_level s \<and> dirty s' = dirty s
      \<and> end_time s' = end_time s \<and> duration s' = duration s \<and> curr_t s' = curr_t s
      \<and> parent_links s' = parent_links s \<and> warnings s' = warnings s)"

lemma same_schedule_refl [simp]: "same_schedule s s"
  by (simp add: same_schedule_def)

lemma same_schedule_trans: "same_schedule s s1 \<Longrightarrow> same_schedule s1 s2 \<Longrightarrow> same_schedule s s2"
  by (simp add: same_schedule_def)

lemma same_schedule_assert_failure [simp]: "same_schedule s (assert_failure s)"
  by (simp add: same_schedule_def assert_failure_def)

lemma same_schedule_enqueue_event [simp]:
  "same_schedule s (enqueue_event n event_type is_initial time s)"
  by (simp add: same_schedule_def enqueue_event_def assert_failure_def Let_def
      split: DefType.split option.split)

lemma same_schedule_do_event_forward:
  "same_schedule s (fst (do_event_forward event is_initial (s, new_active)))"
proof -
  have a: "\<And>x. same_schedule s (s\<lparr>active := x\<rparr>)"
    by (simp add: same_schedule_def)
  have b: "\<And>x n e i t. same_schedule s (enqueue_event n e i t (s\<lparr>active := x\<rparr>))"
    using a same_schedule_enqueue_event same_schedule_trans by blast
  have c: "\<And>u. same_schedule s u \<Longrightarrow> same_schedule s (assert_failure u)"
    using same_schedule_assert_failure same_schedule_trans by blast
  show ?thesis
    by (simp add: do_event_forward_def Let_def pset_insert_def pset_erase_def b c
        split: PlaybackEventType.split)
qed

lemma same_schedule_do_event_reverse:
  "same_schedule s (fst (do_event_reverse event is_initial (s, new_active)))"
proof -
  have a: "\<And>x. same_schedule s (s\<lparr>active := x\<rparr>)"
    by (simp add: same_schedule_def)
  have b: "\<And>x n e i t. same_schedule s (enqueue_event n e i t (s\<lparr>active := x\<rparr>))"
    using a same_schedule_enqueue_event same_schedule_trans by blast
  have c: "\<And>u. same_schedule s u \<Longrightarrow> same_schedule s (assert_failure u)"
    using same_schedule_assert_failure same_schedule_trans by blast
  show ?thesis
    by (simp add: do_event_reverse_def Let_def pset_insert_def pset_erase_def b c
        split: PlaybackEventType.split)
qed

text \<open>
  The scanning loops. \<^verbatim>\<open>initialize\<close> and \<^verbatim>\<open>step\<close> share the forward loop,
  \<^verbatim>\<open>reverse_initialize\<close> and \<^verbatim>\<open>step\<close> the backward one; \<^verbatim>\<open>finalize\<close> and
  \<^verbatim>\<open>reverse_finalize\<close> run to the end of the list without looking at the time.
\<close>

function forward_events ::
  "int \<Rightarrow> bool \<Rightarrow> CMetaInterval \<times> nat list \<Rightarrow> CMetaInterval \<times> nat list" where
  "forward_events now is_initial (s, new_active) =
     (if next_event_index s < length (events s)
         \<and> ev_time (arena s ! (events s ! next_event_index s)) \<le> now
      then
        (let event = events s ! next_event_index s;
             (s1, new_active1) = do_event_forward event is_initial (s, new_active)
         in forward_events now is_initial
              (s1\<lparr>next_event_index := next_event_index s1 + 1\<rparr>, new_active1))
      else (s, new_active))"
  by pat_completeness auto
termination
proof (relation "measure (\<lambda>(now, is_initial, s, new_active).
                   length (events s) - next_event_index s)")
  show "wf (measure (\<lambda>(now, is_initial, s, new_active).
                   length (events s) - next_event_index s))"
    by simp
next
  fix now is_initial s new_active event x s1 new_active1
  assume h: "next_event_index s < length (events s)
             \<and> ev_time (arena s ! (events s ! next_event_index s)) \<le> now"
    and e: "event = events s ! next_event_index s"
    and x: "x = do_event_forward event is_initial (s, new_active)"
    and p: "(s1, new_active1) = x"
  have "same_schedule s s1"
    using same_schedule_do_event_forward [of s event is_initial new_active] x p
    by (metis fst_conv)
  then show "((now, is_initial, s1\<lparr>next_event_index := next_event_index s1 + 1\<rparr>, new_active1),
              (now, is_initial, s, new_active))
             \<in> measure (\<lambda>(now, is_initial, s, new_active).
                   length (events s) - next_event_index s)"
    using h by (auto simp: same_schedule_def)
qed

function finalize_events :: "CMetaInterval \<times> nat list \<Rightarrow> CMetaInterval \<times> nat list" where
  "finalize_events (s, new_active) =
     (if next_event_index s < length (events s)
      then
        (let event = events s ! next_event_index s;
             (s1, new_active1) = do_event_forward event False (s, new_active)
         in finalize_events (s1\<lparr>next_event_index := next_event_index s1 + 1\<rparr>, new_active1))
      else (s, new_active))"
  by pat_completeness auto
termination
proof (relation "measure (\<lambda>(s, new_active). length (events s) - next_event_index s)")
  show "wf (measure (\<lambda>(s, new_active). length (events s) - next_event_index s))"
    by simp
next
  fix s new_active event x s1 new_active1
  assume h: "next_event_index s < length (events s)"
    and e: "event = events s ! next_event_index s"
    and x: "x = do_event_forward event False (s, new_active)"
    and p: "(s1, new_active1) = x"
  have "same_schedule s s1"
    using same_schedule_do_event_forward [of s event False new_active] x p
    by (metis fst_conv)
  then show "((s1\<lparr>next_event_index := next_event_index s1 + 1\<rparr>, new_active1), (s, new_active))
             \<in> measure (\<lambda>(s, new_active). length (events s) - next_event_index s)"
    using h by (auto simp: same_schedule_def)
qed

function reverse_events ::
  "int \<Rightarrow> bool \<Rightarrow> CMetaInterval \<times> nat list \<Rightarrow> CMetaInterval \<times> nat list" where
  "reverse_events now is_initial (s, new_active) =
     (if next_event_index s > 0
         \<and> ev_time (arena s ! (events s ! (next_event_index s - 1))) > now
      then
        (let s0 = s\<lparr>next_event_index := next_event_index s - 1\<rparr>;
             event = events s0 ! next_event_index s0
         in reverse_events now is_initial (do_event_reverse event is_initial (s0, new_active)))
      else (s, new_active))"
  by pat_completeness auto
termination
proof (relation "measure (\<lambda>(now, is_initial, s, new_active). next_event_index s)")
  show "wf (measure (\<lambda>(now, is_initial, s, new_active). next_event_index s))"
    by simp
next
  fix now is_initial and s s0 :: CMetaInterval and new_active :: "nat list" and event
  assume h: "next_event_index s > 0
             \<and> ev_time (arena s ! (events s ! (next_event_index s - 1))) > now"
    and s0: "s0 = s\<lparr>next_event_index := next_event_index s - 1\<rparr>"
    and e: "event = events s0 ! next_event_index s0"
  obtain s1 na1 where r: "do_event_reverse event is_initial (s0, new_active) = (s1, na1)"
    by (cases "do_event_reverse event is_initial (s0, new_active)")
  have "same_schedule s0 s1"
    using same_schedule_do_event_reverse [of s0 event is_initial new_active] r by simp
  then show "((now, is_initial, do_event_reverse event is_initial (s0, new_active)),
              (now, is_initial, s, new_active))
             \<in> measure (\<lambda>(now, is_initial, s, new_active). next_event_index s)"
    using h s0 r by (auto simp: same_schedule_def)
qed

function reverse_finalize_events :: "CMetaInterval \<times> nat list \<Rightarrow> CMetaInterval \<times> nat list" where
  "reverse_finalize_events (s, new_active) =
     (if next_event_index s > 0
      then
        (let s0 = s\<lparr>next_event_index := next_event_index s - 1\<rparr>;
             event = events s0 ! next_event_index s0
         in reverse_finalize_events (do_event_reverse event False (s0, new_active)))
      else (s, new_active))"
  by pat_completeness auto
termination
proof (relation "measure (\<lambda>(s, new_active). next_event_index s)")
  show "wf (measure (\<lambda>(s, new_active). next_event_index s))"
    by simp
next
  fix s s0 :: CMetaInterval and new_active :: "nat list" and event
  assume h: "next_event_index s > 0"
    and s0: "s0 = s\<lparr>next_event_index := next_event_index s - 1\<rparr>"
    and e: "event = events s0 ! next_event_index s0"
  obtain s1 na1 where r: "do_event_reverse event False (s0, new_active) = (s1, na1)"
    by (cases "do_event_reverse event False (s0, new_active)")
  have "same_schedule s0 s1"
    using same_schedule_do_event_reverse [of s0 event False new_active] r by simp
  then show "((do_event_reverse event False (s0, new_active)), (s, new_active))
             \<in> measure (\<lambda>(s, new_active). next_event_index s)"
    using h s0 r by (auto simp: same_schedule_def)
qed

declare forward_events.simps [simp del]
declare finalize_events.simps [simp del]
declare reverse_events.simps [simp del]
declare reverse_finalize_events.simps [simp del]

text \<open>The playback operations; \<open>t\<close> is the time in ticks (\<^verbatim>\<open>now\<close> in the source).\<close>

definition initialize :: "int \<Rightarrow> CMetaInterval \<Rightarrow> CMetaInterval" where
  "initialize t s =
     (let s1 = recompute s;
          s2 = s1\<lparr>next_event_index := 0, active := []\<rparr>;
          now = t;
          (s3, new_active) = forward_events now True (s2, []);
          s4 = finish_events_forward now new_active s3
      in s4\<lparr>curr_t := t\<rparr>)"

text \<open>The loop of \<^verbatim>\<open>instant\<close> and, over the reversed list, of \<^verbatim>\<open>reverse_instant\<close>.\<close>

fun instant_events :: "EventType \<Rightarrow> nat list \<Rightarrow> CMetaInterval \<Rightarrow> CMetaInterval" where
  "instant_events event_type [] s = s"
| "instant_events event_type (event # rest) s =
     instant_events event_type rest
       (if ev_type (arena s ! event) \<noteq> PET_begin
        then enqueue_event (ev_n (arena s ! event)) event_type True 0 s
        else s)"

definition instant :: "CMetaInterval \<Rightarrow> CMetaInterval" where
  "instant s =
     (let s1 = recompute s;
          s2 = s1\<lparr>active := []\<rparr>;
          s3 = instant_events ET_instant (events s2) s2;
          s4 = s3\<lparr>next_event_index := length (events s3)\<rparr>
      in s4\<lparr>curr_t := get_duration s4\<rparr>)"

definition step :: "int \<Rightarrow> CMetaInterval \<Rightarrow> CMetaInterval" where
  "step t s =
     (let now = t;
          s3 =
            (if next_event_index s < length (events s)
                \<and> ev_time (arena s ! (events s ! next_event_index s)) \<le> now
             then
               (let (s1, new_active) = forward_events now False (s, [])
                in finish_events_forward now new_active s1)
             else
               (let (s1, new_active) = reverse_events now False (s, [])
                in finish_events_reverse now new_active s1))
      in s3\<lparr>curr_t := t\<rparr>)"

definition finalize :: "CMetaInterval \<Rightarrow> CMetaInterval" where
  "finalize s =
     (let (s1, new_active) = finalize_events (s, []);
          s2 = s1\<lparr>curr_t := get_duration s1\<rparr>
      in finish_events_forward (curr_t s2) new_active s2)"

definition reverse_initialize :: "int \<Rightarrow> CMetaInterval \<Rightarrow> CMetaInterval" where
  "reverse_initialize t s =
     (let s1 = recompute s;
          s2 = s1\<lparr>next_event_index := length (events s1), active := []\<rparr>;
          now = t;
          (s3, new_active) = reverse_events now True (s2, []);
          s4 = finish_events_reverse now new_active s3
      in s4\<lparr>curr_t := t\<rparr>)"

definition reverse_instant :: "CMetaInterval \<Rightarrow> CMetaInterval" where
  "reverse_instant s =
     (let s1 = recompute s;
          s2 = s1\<lparr>active := []\<rparr>;
          s3 = instant_events ET_reverse_instant (rev (events s2)) s2
      in s3\<lparr>next_event_index := 0, curr_t := 0\<rparr>)"

definition reverse_finalize :: "CMetaInterval \<Rightarrow> CMetaInterval" where
  "reverse_finalize s =
     (let (s1, new_active) = reverse_finalize_events (s, []);
          s2 = finish_events_reverse 0 new_active s1
      in s2\<lparr>curr_t := 0\<rparr>)"

declare service_event_queue.simps [simp del]

section \<open>Vocabulary of the properties\<close>

text \<open>What a native definition or an external one takes for its duration.\<close>

definition action_duration :: "IntervalDef \<Rightarrow> int option" where
  "action_duration d =
     (case def_type d of
        DT_c_interval \<Rightarrow> map_option ci_duration (c_interval d)
      | DT_ext_index \<Rightarrow> Some (ext_duration d)
      | DT_push_level \<Rightarrow> None
      | DT_pop_level \<Rightarrow> None)"

definition action_open_ended :: "IntervalDef \<Rightarrow> bool option" where
  "action_open_ended d =
     (case def_type d of
        DT_c_interval \<Rightarrow> map_option ci_open_ended (c_interval d)
      | DT_ext_index \<Rightarrow> Some (ext_open_ended d)
      | DT_push_level \<Rightarrow> None
      | DT_pop_level \<Rightarrow> None)"

text \<open>Whether \<^verbatim>\<open>enqueue_event\<close> delivers the callback (at once or through the queue).\<close>

definition delivers :: "CMetaInterval \<Rightarrow> nat \<Rightarrow> EventType \<Rightarrow> bool \<Rightarrow> bool" where
  "delivers s n event_type is_initial =
     (n < length (defs s) \<and>
      (case action_open_ended (defs s ! n) of
         None \<Rightarrow> False
       | Some open_ended \<Rightarrow>
           \<not> (is_initial \<and> (event_type = ET_instant \<or> event_type = ET_reverse_instant)
              \<and> \<not> open_ended)))"

text \<open>
  From \<open>s\<close> to \<open>s'\<close> the callbacks \<open>es\<close> have been delivered, in this order: the first of
  them invoked, which needs an empty queue, the others appended to the queue.
\<close>

definition dispatches :: "CMetaInterval \<Rightarrow> CMetaInterval \<Rightarrow> EventQueueEntry list \<Rightarrow> bool" where
  "dispatches s s' es =
     (\<exists>a b. invoked s' = invoked s @ a \<and> event_queue s' = event_queue s @ b
            \<and> a @ b = es \<and> (a \<noteq> [] \<longrightarrow> event_queue s = []))"

text \<open>The step pass: one step callback for every event of the list, where it is delivered.\<close>

definition step_entries :: "CMetaInterval \<Rightarrow> int \<Rightarrow> nat list \<Rightarrow> EventQueueEntry list" where
  "step_entries s now xs =
     map (\<lambda>event. EventQueueEntry (ev_n (arena s ! event)) ET_step
                    (now - ev_time (arena s ! event)))
       (filter (\<lambda>event. delivers s (ev_n (arena s ! event)) ET_step False) xs)"

definition appends :: "CMetaInterval \<Rightarrow> CMetaInterval \<Rightarrow> bool" where
  "appends s s' = (\<exists>es. dispatches s s' es)"

text \<open>The conditions of the two scanning loops.\<close>

definition forward_pending :: "int \<Rightarrow> CMetaInterval \<Rightarrow> bool" where
  "forward_pending now s =
     (next_event_index s < length (events s)
      \<and> ev_time (arena s ! (events s ! next_event_index s)) \<le> now)"

definition reverse_pending :: "int \<Rightarrow> CMetaInterval \<Rightarrow> bool" where
  "reverse_pending now s =
     (next_event_index s > 0
      \<and> ev_time (arena s ! (events s ! (next_event_index s - 1))) > now)"

text \<open>The scanning loops move the cursor and deliver callbacks; the schedule stays.\<close>

definition scanned :: "CMetaInterval \<Rightarrow> CMetaInterval \<Rightarrow> bool" where
  "scanned s s' =
     (same_schedule (s\<lparr>next_event_index := next_event_index s'\<rparr>) s' \<and> appends s s')"

text \<open>What compilation leaves alone.\<close>

definition same_playback :: "CMetaInterval \<Rightarrow> CMetaInterval \<Rightarrow> bool" where
  "same_playback s s' =
     (event_queue s' = event_queue s \<and> invoked s' = invoked s \<and> active s' = active s
      \<and> next_event_index s' = next_event_index s
      \<and> current_nesting_level s' = current_nesting_level s \<and> dirty s' = dirty s
      \<and> end_time s' = end_time s \<and> duration s' = duration s \<and> curr_t s' = curr_t s
      \<and> parent_links s' = parent_links s \<and> warnings s' = warnings s)"

text \<open>The callbacks of \<^verbatim>\<open>instant\<close> and \<^verbatim>\<open>reverse_instant\<close> over a list of events.\<close>

definition instant_entries ::
  "CMetaInterval \<Rightarrow> EventType \<Rightarrow> nat list \<Rightarrow> EventQueueEntry list" where
  "instant_entries s event_type xs =
     map (\<lambda>event. EventQueueEntry (ev_n (arena s ! event)) event_type 0)
       (filter (\<lambda>event. ev_type (arena s ! event) \<noteq> PET_begin
                  \<and> delivers s (ev_n (arena s ! event)) event_type True) xs)"

definition open_ended_action :: "CMetaInterval \<Rightarrow> nat \<Rightarrow> bool" where
  "open_ended_action s n = (n < length (defs s) \<and> action_open_ended (defs s ! n) = Some True)"

definition settled :: "int \<Rightarrow> CMetaInterval \<Rightarrow> bool" where
  "settled now s = (\<not> forward_pending now s \<and> \<not> reverse_pending now s)"

text \<open>
  Two definition lists that differ in the compiled begin times only.
\<close>

definition same_defs :: "IntervalDef list \<Rightarrow> IntervalDef list \<Rightarrow> bool" where
  "same_defs ds ds' =
     (map (\<lambda>d. d\<lparr>actual_begin_time := 0\<rparr>) ds' = map (\<lambda>d. d\<lparr>actual_begin_time := 0\<rparr>) ds)"

text \<open>
  The nesting of a definition list: the change of \<^verbatim>\<open>_current_nesting_level\<close> by one
  definition, the level after a list, and whether no \<^verbatim>\<open>pop_level\<close> of the list found the
  level at 0, starting at level \<open>d\<close>.
\<close>

definition nesting_delta :: "IntervalDef \<Rightarrow> int" where
  "nesting_delta d =
     (case def_type d of DT_push_level \<Rightarrow> 1 | DT_pop_level \<Rightarrow> - 1
      | DT_c_interval \<Rightarrow> 0 | DT_ext_index \<Rightarrow> 0)"

definition nesting_depth :: "IntervalDef list \<Rightarrow> int" where
  "nesting_depth ds = sum_list (map nesting_delta ds)"

fun pops_matched :: "IntervalDef list \<Rightarrow> int \<Rightarrow> bool" where
  "pops_matched [] d = True"
| "pops_matched (x # xs) d = (0 \<le> d + nesting_delta x \<and> pops_matched xs (d + nesting_delta x))"

definition handles_ok :: "IntervalDef list \<Rightarrow> bool" where
  "handles_ok ds = list_all (\<lambda>d. def_type d \<noteq> DT_c_interval \<or> c_interval d \<noteq> None) ds"

text \<open>What the append API guarantees of the definition list.\<close>

definition defs_ok :: "IntervalDef list \<Rightarrow> bool" where
  "defs_ok ds = (handles_ok ds \<and> pops_matched ds 0)"

text \<open>
  The shape of the compiled events. Event \<open>p\<close> of the arena \<open>A\<close> is well-formed for the
  definitions \<open>ds\<close>: a Begin event points to itself and is followed by its End event, which
  points back to it and lies the duration of the action later; an Instant event points to
  itself and belongs to an action of duration 0.
\<close>

definition event_ok :: "IntervalDef list \<Rightarrow> PlaybackEvent list \<Rightarrow> nat \<Rightarrow> bool" where
  "event_ok ds A p =
     (case ev_type (A ! p) of
        PET_begin \<Rightarrow>
          ev_begin_event (A ! p) = p \<and> Suc p < length A
          \<and> (case action_duration (ds ! ev_n (A ! p)) of
               None \<Rightarrow> False
             | Some dur \<Rightarrow>
                 dur \<noteq> 0
                 \<and> A ! Suc p = PlaybackEvent (ev_time (A ! p) + dur) (ev_n (A ! p)) PET_end p)
      | PET_end \<Rightarrow>
          0 < p \<and> ev_begin_event (A ! p) = p - 1 \<and> ev_type (A ! (p - 1)) = PET_begin
          \<and> ev_n (A ! (p - 1)) = ev_n (A ! p)
      | PET_instant \<Rightarrow>
          ev_begin_event (A ! p) = p \<and> action_duration (ds ! ev_n (A ! p)) = Some 0)"

text \<open>
  The arena \<open>A\<close> holds the events of the definitions below index \<open>m\<close>: every event is
  well-formed and belongs to such a definition, the events follow the order of the
  definitions, two events of one definition are a Begin event and the event after it, and
  every action below \<open>m\<close> has an event.
\<close>

definition compiled_upto :: "IntervalDef list \<Rightarrow> PlaybackEvent list \<Rightarrow> nat \<Rightarrow> bool" where
  "compiled_upto ds A m =
     ((\<forall>p<length A. ev_n (A ! p) < m \<and> ev_n (A ! p) < length ds \<and> event_ok ds A p)
      \<and> (\<forall>p q. p < q \<longrightarrow> q < length A \<longrightarrow> ev_n (A ! p) \<le> ev_n (A ! q))
      \<and> (\<forall>p q. p < q \<longrightarrow> q < length A \<longrightarrow> ev_n (A ! p) = ev_n (A ! q) \<longrightarrow>
             q = Suc p \<and> ev_type (A ! p) = PET_begin)
      \<and> (\<forall>k<m. k < length ds \<longrightarrow> action_duration (ds ! k) \<noteq> None \<longrightarrow>
             (\<exists>p<length A. ev_n (A ! p) = k)))"

text \<open>The events that \<^verbatim>\<open>recompute_level\<close> pushes for one action.\<close>

definition action_events :: "int \<Rightarrow> int \<Rightarrow> nat \<Rightarrow> nat \<Rightarrow> PlaybackEvent list" where
  "action_events begin_time dur n p =
     (if dur = 0 then [PlaybackEvent begin_time n PET_instant p]
      else [PlaybackEvent begin_time n PET_begin p,
            PlaybackEvent (begin_time + dur) n PET_end p])"

text \<open>
  The events of the arena \<open>A\<close> belong to definitions below \<open>m\<close> and were allocated in the
  order of the definitions.
\<close>

definition emitted_in_order :: "PlaybackEvent list \<Rightarrow> nat \<Rightarrow> bool" where
  "emitted_in_order A m = ((\<forall>ev\<in>set A. ev_n ev < m) \<and> sorted (map ev_n A))"



text \<open>No callback for definition \<open>k\<close> has been invoked or queued between \<open>s\<close> and \<open>s'\<close>.\<close>

definition untouched :: "nat \<Rightarrow> CMetaInterval \<Rightarrow> CMetaInterval \<Rightarrow> bool" where
  "untouched k s s' =
     (filter (\<lambda>e. entry_n e = k) (invoked s') = filter (\<lambda>e. entry_n e = k) (invoked s)
      \<and> filter (\<lambda>e. entry_n e = k) (event_queue s') = filter (\<lambda>e. entry_n e = k) (event_queue s))"

text \<open>
  The setting of a skipped action: the compiled events \<open>A\<close>, in the sorted list \<open>E\<close>, of
  definitions \<open>ds\<close> in which action \<open>k\<close> is not open-ended, has a duration that is not
  negative, and has all its events at or before \<open>t\<close>.
\<close>

definition skip_static ::
  "IntervalDef list \<Rightarrow> PlaybackEvent list \<Rightarrow> nat list \<Rightarrow> nat \<Rightarrow> int \<Rightarrow> bool" where
  "skip_static ds A E k t =
     ((\<forall>p<length A. event_ok ds A p)
      \<and> distinct E \<and> set E = {..<length A} \<and> sorted (map (\<lambda>p. ev_time (A ! p)) E)
      \<and> k < length ds
      \<and> (case action_duration (ds ! k) of None \<Rightarrow> False | Some dur \<Rightarrow> 0 \<le> dur)
      \<and> action_open_ended (ds ! k) = Some False
      \<and> (\<forall>p<length A. ev_n (A ! p) = k \<longrightarrow> ev_time (A ! p) \<le> t))"

text \<open>
  The invariant of the scan of \<^verbatim>\<open>initialize\<close>: a Begin event of action \<open>k\<close> is in
  \<^verbatim>\<open>new_active\<close> exactly between the scan of it and the scan of its End event.
\<close>

definition skip_inv ::
  "IntervalDef list \<Rightarrow> PlaybackEvent list \<Rightarrow> nat list \<Rightarrow> nat
     \<Rightarrow> CMetaInterval \<times> nat list \<Rightarrow> bool" where
  "skip_inv ds A E k = (\<lambda>(s, na).
     arena s = A \<and> events s = E \<and> same_defs ds (defs s) \<and> active s = []
     \<and> next_event_index s \<le> length E
     \<and> set na \<subseteq> {..<length A}
     \<and> (\<forall>q<length A. ev_n (A ! q) = k \<longrightarrow>
           (q \<in> set na) =
             (ev_type (A ! q) = PET_begin \<and> q \<in> set (take (next_event_index s) E)
              \<and> Suc q \<notin> set (take (next_event_index s) E))))"

text \<open>The compiled events are those of the definition list.\<close>

definition up_to_date :: "CMetaInterval \<Rightarrow> bool" where
  "up_to_date s =
     (dirty s \<or> (arena s = arena (do_recompute s) \<and> events s = events (do_recompute s)))"

text \<open>The states \<open>s\<close> and \<open>t\<close> look the same to the compiler.\<close>

definition same_input :: "CMetaInterval \<Rightarrow> CMetaInterval \<Rightarrow> bool" where
  "same_input s t =
     (same_defs (defs s) (defs t) \<and> arena t = arena s \<and> events t = events s)"

text \<open>
  The states that the append API and the playback operations reach from a new scheduler:
  the definition list has a handle in every native definition and no unmatched pop, the
  nesting level is that of the list, and the compiled events are those of the list
  unless the schedule is dirty.
\<close>

definition built :: "CMetaInterval \<Rightarrow> bool" where
  "built s =
     (defs_ok (defs s) \<and> current_nesting_level s = nesting_depth (defs s) \<and> up_to_date s)"

text \<open>What the playback operations keep of the state after \<^verbatim>\<open>recompute()\<close>.\<close>

definition same_compiled :: "CMetaInterval \<Rightarrow> CMetaInterval \<Rightarrow> bool" where
  "same_compiled s s' =
     (defs s' = defs s \<and> arena s' = arena s \<and> events s' = events s \<and> dirty s' = dirty s
      \<and> current_nesting_level s' = current_nesting_level s)"

text \<open>
  The state \<open>s'\<close> comes from \<open>s\<close> by allocations alone: the new events of the arena have
  the next addresses of the allocator of \<open>s\<close>, in the order of their allocation.
\<close>

definition allocated :: "CMetaInterval \<Rightarrow> CMetaInterval \<Rightarrow> bool" where
  "allocated s s' =
     (\<exists>k. length (arena s') = length (arena s) + k
          \<and> addresses s' = addresses s @ map (allocator s) [0..<k]
          \<and> allocator s' = (\<lambda>i. allocator s (i + k)))"

section \<open>Example schedules\<close>

text \<open>A heap whose addresses rise from one allocation to the next, and one where they fall.\<close>

definition heap_up :: "nat \<Rightarrow> nat" where
  "heap_up i = i"

definition heap_down :: "nat \<Rightarrow> nat" where
  "heap_down i = 100 - i"

text \<open>
  Scenario E of the specification: an external action and, declared after it, a native
  action, both at the begin of the top level.
\<close>

definition scenario_E :: CMetaInterval where
  "scenario_E =
     snd (add_c_interval (Some \<lparr>ci_id = 1, ci_duration = 2, ci_open_ended = True\<rparr>)
            0 RS_level_begin
       (snd (add_ext_index 7 ''ext'' 3 True 0 RS_level_begin
              (CMetaInterval_new heap_up))))"

text \<open>The same schedule, compiled, with the initialize of the external action pending.\<close>

definition scenario_E_pending :: CMetaInterval where
  "scenario_E_pending = enqueue_event 0 ET_initialize False 0 (recompute scenario_E)"

text \<open>One native action of two ticks, open-ended, and the same action not open-ended.\<close>

definition scenario_open :: CMetaInterval where
  "scenario_open =
     snd (add_c_interval (Some \<lparr>ci_id = 1, ci_duration = 2, ci_open_ended = True\<rparr>)
            0 RS_previous_end (CMetaInterval_new heap_up))"

definition scenario_closed :: CMetaInterval where
  "scenario_closed =
     snd (add_c_interval (Some \<lparr>ci_id = 2, ci_duration = 2, ci_open_ended = False\<rparr>)
            0 RS_previous_end (CMetaInterval_new heap_up))"

text \<open>One external action whose declared duration is negative, not open-ended.\<close>

definition scenario_negative :: CMetaInterval where
  "scenario_negative =
     snd (add_ext_index 7 ''ext'' (- 1) False 0 RS_level_begin (CMetaInterval_new heap_up))"



text \<open>Two native actions of two ticks at the begin of the top level, on a given heap.\<close>

definition scenario_pair :: "(nat \<Rightarrow> nat) \<Rightarrow> CMetaInterval" where
  "scenario_pair heap =
     snd (add_c_interval (Some \<lparr>ci_id = 2, ci_duration = 2, ci_open_ended = True\<rparr>)
            0 RS_level_begin
       (snd (add_c_interval (Some \<lparr>ci_id = 1, ci_duration = 2, ci_open_ended = True\<rparr>)
              0 RS_level_begin (CMetaInterval_new heap))))"

section \<open>Servicing the deferred queue\<close>

lemma native_entry_update [simp]:
  "native_entry (s\<lparr>invoked := a, event_queue := b\<rparr>) = native_entry s"
  "external_entry (s\<lparr>invoked := a, event_queue := b\<rparr>) = external_entry s"
  by (auto simp: native_entry_def external_entry_def fun_eq_iff)

lemma service_event_queue_native:
  "event_queue s = entry # rest \<Longrightarrow> native_entry s entry \<Longrightarrow>
   service_event_queue s =
     service_event_queue (s\<lparr>invoked := invoked s @ [entry], event_queue := rest\<rparr>)"
  by (subst service_event_queue.simps) (auto simp: native_entry_def Let_def)

lemma service_event_queue_stop:
  "event_queue s = entry # rest \<Longrightarrow> \<not> native_entry s entry \<Longrightarrow>
   service_event_queue s =
     (external_entry s entry, if external_entry s entry then s else assert_failure s)"
  by (subst service_event_queue.simps)
    (auto simp: native_entry_def external_entry_def Let_def split: DefType.split option.split)

lemma service_event_queue_empty:
  "event_queue s = [] \<Longrightarrow> service_event_queue s = (False, s)"
  by (subst service_event_queue.simps) simp

text \<open>
  Claim C4. \<^verbatim>\<open>service_event_queue\<close> invokes the entries of the longest prefix of the queue
  whose targets are native actions, in queue order, and removes exactly them. The result is
  \<open>True\<close> when the entry left at the head is an external one, which stays in the queue,
  and \<open>False\<close> when the queue has been drained. Nothing else of the scheduler changes.
\<close>

theorem service_event_queue_result:
  "event_queue (snd (service_event_queue s)) = dropWhile (native_entry s) (event_queue s)
   \<and> invoked (snd (service_event_queue s)) = invoked s @ takeWhile (native_entry s) (event_queue s)
   \<and> fst (service_event_queue s) =
        (case dropWhile (native_entry s) (event_queue s) of
           [] \<Rightarrow> False | e # rest \<Rightarrow> external_entry s e)
   \<and> same_schedule s (snd (service_event_queue s))
   \<and> active (snd (service_event_queue s)) = active s"
proof (induction s rule: service_event_queue.induct)
  case (1 s)
  show ?case
  proof (cases "event_queue s")
    case Nil
    then show ?thesis by (simp add: service_event_queue_empty)
  next
    case (Cons entry rest)
    show ?thesis
    proof (cases "native_entry s entry")
      case True
      then obtain c where c: "c_interval (defs s ! entry_n entry) = Some c"
        and n: "entry_n entry < length (defs s)"
        and t: "def_type (defs s ! entry_n entry) = DT_c_interval"
        by (auto simp: native_entry_def)
      show ?thesis
        using "1.IH" [OF Cons _ refl t c] n Cons True
        by (simp add: service_event_queue_native [OF Cons True] same_schedule_def
            cong: list.case_cong)
    next
      case False
      then show ?thesis
        using Cons
        by (simp add: service_event_queue_stop [OF Cons False] assert_failure_def
            same_schedule_def)
    qed
  qed
qed

text \<open>
  Claim C5. A callback for a native action that is not suppressed is invoked at once,
  leaving the queue alone, when the queue is empty, and is appended to the back of the queue
  otherwise. With an external entry pending at the head, servicing the queue afterwards
  invokes nothing and reports the pending entry; once the host has removed that external
  entry, servicing invokes the native callback.
\<close>

theorem enqueue_event_native:
  assumes "n < length (defs s)"
    and "def_type (defs s ! n) = DT_c_interval"
    and "c_interval (defs s ! n) = Some c"
    and "\<not> (is_initial \<and> (event_type = ET_instant \<or> event_type = ET_reverse_instant)
            \<and> \<not> ci_open_ended c)"
  shows "enqueue_event n event_type is_initial time s =
           (if event_queue s = []
            then s\<lparr>invoked := invoked s @ [EventQueueEntry n event_type time]\<rparr>
            else s\<lparr>event_queue := event_queue s @ [EventQueueEntry n event_type time]\<rparr>)
         \<and> (event_queue s \<noteq> [] \<and> external_entry s (hd (event_queue s)) \<longrightarrow>
              service_event_queue (enqueue_event n event_type is_initial time s) =
                (True, s\<lparr>event_queue := event_queue s @ [EventQueueEntry n event_type time]\<rparr>))
         \<and> (\<forall>x. event_queue s = [x] \<and> external_entry s x \<longrightarrow>
              service_event_queue
                ((enqueue_event n event_type is_initial time s)\<lparr>event_queue :=
                    tl (event_queue (enqueue_event n event_type is_initial time s))\<rparr>) =
                (False, s\<lparr>invoked := invoked s @ [EventQueueEntry n event_type time],
                          event_queue := []\<rparr>))"
proof -
  let ?e = "EventQueueEntry n event_type time"
  have 1: "enqueue_event n event_type is_initial time s =
           (if event_queue s = []
            then s\<lparr>invoked := invoked s @ [?e]\<rparr>
            else s\<lparr>event_queue := event_queue s @ [?e]\<rparr>)"
    using assms by (auto simp: enqueue_event_def)
  have 2: "service_event_queue (s\<lparr>event_queue := event_queue s @ [?e]\<rparr>) =
             (True, s\<lparr>event_queue := event_queue s @ [?e]\<rparr>)"
    if ne: "event_queue s \<noteq> []" and ex: "external_entry s (hd (event_queue s))"
  proof -
    obtain x xs where q: "event_queue s = x # xs"
      using ne by (cases "event_queue s") auto
    have "\<not> native_entry s x" "external_entry s x"
      using ex q by (auto simp: native_entry_def external_entry_def)
    then show ?thesis
      using service_event_queue_stop [of "s\<lparr>event_queue := event_queue s @ [?e]\<rparr>" x "xs @ [?e]"] q
      by (simp add: native_entry_def external_entry_def)
  qed
  have 3: "service_event_queue (s\<lparr>event_queue := [?e]\<rparr>) =
             (False, s\<lparr>invoked := invoked s @ [?e], event_queue := []\<rparr>)"
  proof -
    have n: "native_entry (s\<lparr>event_queue := [?e]\<rparr>) ?e"
      using assms by (simp add: native_entry_def)
    show ?thesis
      using service_event_queue_native [of "s\<lparr>event_queue := [?e]\<rparr>" ?e "[]", OF _ n]
      by (simp add: service_event_queue_empty)
  qed
  show ?thesis
    using 1 2 3 by auto
qed

theorem enqueue_event_native_witness:
  "enqueue_event 1 ET_initialize False 0 scenario_E_pending =
     scenario_E_pending\<lparr>event_queue :=
        [EventQueueEntry 0 ET_initialize 0, EventQueueEntry 1 ET_initialize 0]\<rparr>
   \<and> fst (service_event_queue (enqueue_event 1 ET_initialize False 0 scenario_E_pending))
   \<and> invoked (snd (service_event_queue
         ((enqueue_event 1 ET_initialize False 0 scenario_E_pending)\<lparr>event_queue :=
            tl (event_queue (enqueue_event 1 ET_initialize False 0 scenario_E_pending))\<rparr>))) =
       [EventQueueEntry 1 ET_initialize 0]"
proof -
  let ?c = "\<lparr>ci_id = 1, ci_duration = 2, ci_open_ended = True\<rparr>"
  have h1: "1 < length (defs scenario_E_pending)"
    by code_simp
  have h2: "def_type (defs scenario_E_pending ! 1) = DT_c_interval"
    by code_simp
  have h3: "c_interval (defs scenario_E_pending ! 1) = Some ?c"
    by code_simp
  have h4: "\<not> (False \<and> (ET_initialize = ET_instant \<or> ET_initialize = ET_reverse_instant)
              \<and> \<not> ci_open_ended ?c)"
    by simp
  have q: "event_queue scenario_E_pending = [EventQueueEntry 0 ET_initialize 0]"
    by code_simp
  have i: "invoked scenario_E_pending = []"
    by code_simp
  have x: "external_entry scenario_E_pending (EventQueueEntry 0 ET_initialize 0)"
    by code_simp
  note t = enqueue_event_native [OF h1 h2 h3 h4, of 0]
  have a: "enqueue_event 1 ET_initialize False 0 scenario_E_pending =
     scenario_E_pending\<lparr>event_queue :=
        [EventQueueEntry 0 ET_initialize 0, EventQueueEntry 1 ET_initialize 0]\<rparr>"
    using conjunct1 [OF t] q by simp
  have b: "fst (service_event_queue (enqueue_event 1 ET_initialize False 0 scenario_E_pending))"
    using conjunct1 [OF conjunct2 [OF t]] q x by simp
  have c: "invoked (snd (service_event_queue
         ((enqueue_event 1 ET_initialize False 0 scenario_E_pending)\<lparr>event_queue :=
            tl (event_queue (enqueue_event 1 ET_initialize False 0 scenario_E_pending))\<rparr>))) =
       [EventQueueEntry 1 ET_initialize 0]"
    using conjunct2 [OF conjunct2 [OF t]] q x i by simp
  show ?thesis
    using a b c by blast
qed

text \<open>
  Claim C9. Adding a native action with a null handle and popping a level when none is open
  return -1, and clearing with a non-empty queue returns early; each of them only reports the
  failed assertion, so the definition list and the nesting level are as before.
\<close>

theorem caller_contract_violations:
  "add_c_interval None rel_time' rel_to' s = (- 1, assert_failure s)
   \<and> (\<not> current_nesting_level s > 0 \<longrightarrow> pop_level s = (- 1, assert_failure s))
   \<and> (event_queue s \<noteq> [] \<longrightarrow> clear_intervals s = assert_failure s)
   \<and> assert_failure s = s\<lparr>assert_failures := Suc (assert_failures s)\<rparr>
   \<and> defs (assert_failure s) = defs s
   \<and> current_nesting_level (assert_failure s) = current_nesting_level s"
  by (simp add: add_c_interval_def pop_level_def clear_intervals_def assert_failure_def)

theorem caller_contract_violations_witness:
  "\<not> current_nesting_level scenario_E_pending > 0
   \<and> pop_level scenario_E_pending = (- 1, assert_failure scenario_E_pending)
   \<and> event_queue scenario_E_pending \<noteq> []
   \<and> clear_intervals scenario_E_pending = assert_failure scenario_E_pending
   \<and> defs (assert_failure scenario_E_pending) = defs scenario_E_pending"
proof -
  have h1: "\<not> current_nesting_level scenario_E_pending > 0"
    by code_simp
  have h2: "event_queue scenario_E_pending \<noteq> []"
    by code_simp
  show ?thesis
    using caller_contract_violations [of 0 RS_previous_end scenario_E_pending] h1 h2 by simp
qed

section \<open>Properties of playback\<close>

lemma dispatches_refl [simp]: "dispatches s s []"
  by (simp add: dispatches_def)

lemma dispatches_trans:
  assumes "dispatches s s1 es" and "dispatches s1 s2 es'"
  shows "dispatches s s2 (es @ es')"
proof -
  obtain a b where 1: "invoked s1 = invoked s @ a" "event_queue s1 = event_queue s @ b"
    "a @ b = es" "a \<noteq> [] \<longrightarrow> event_queue s = []"
    using assms(1) by (auto simp: dispatches_def)
  obtain a' b' where 2: "invoked s2 = invoked s1 @ a'" "event_queue s2 = event_queue s1 @ b'"
    "a' @ b' = es'" "a' \<noteq> [] \<longrightarrow> event_queue s1 = []"
    using assms(2) by (auto simp: dispatches_def)
  have "(a @ a') @ (b @ b') = es @ es'"
    using 1 2 by (cases "a' = []") auto
  moreover have "a @ a' \<noteq> [] \<longrightarrow> event_queue s = []"
    using 1 2 by auto
  ultimately show ?thesis
    unfolding dispatches_def using 1 2 by (intro exI [of _ "a @ a'"] exI [of _ "b @ b'"]) simp
qed

lemma dispatches_same:
  "invoked s' = invoked s \<Longrightarrow> event_queue s' = event_queue s \<Longrightarrow> dispatches s s' []"
  by (simp add: dispatches_def)

lemma dispatches_cong:
  "dispatches s s' es \<Longrightarrow> invoked t = invoked s \<Longrightarrow> event_queue t = event_queue s \<Longrightarrow>
   invoked t' = invoked s' \<Longrightarrow> event_queue t' = event_queue s' \<Longrightarrow> dispatches t t' es"
  by (simp add: dispatches_def)

lemma dispatches_log:
  "dispatches s s' es \<Longrightarrow>
   invoked s' @ event_queue s' = invoked s @ event_queue s @ es"
  by (auto simp: dispatches_def)

lemma dispatches_prefix:
  "dispatches s s' es \<Longrightarrow>
   prefix (event_queue s) (event_queue s') \<and> prefix (invoked s) (invoked s')"
  by (auto simp: dispatches_def)

lemma dispatches_set:
  assumes "dispatches s s' es"
  shows "set (invoked s') \<union> set (event_queue s') = set (invoked s) \<union> set (event_queue s) \<union> set es"
proof -
  have "set (invoked s' @ event_queue s') = set (invoked s @ event_queue s @ es)"
    using dispatches_log [OF assms] by simp
  then show ?thesis by auto
qed

lemma dispatches_enqueue_event:
  "dispatches s (enqueue_event n event_type is_initial time s)
     (if delivers s n event_type is_initial then [EventQueueEntry n event_type time] else [])"
  by (auto simp: dispatches_def enqueue_event_def delivers_def action_open_ended_def
      assert_failure_def Let_def split: DefType.split option.split)

lemma active_enqueue_event [simp]:
  "active (enqueue_event n event_type is_initial time s) = active s"
  by (simp add: enqueue_event_def assert_failure_def Let_def split: DefType.split option.split)

lemma delivers_same_schedule:
  "same_schedule s s' \<Longrightarrow> delivers s' = delivers s"
  by (simp add: delivers_def same_schedule_def fun_eq_iff)

lemma dispatches_assert_failure_iff [simp]:
  "dispatches s (assert_failure s') es = dispatches s s' es"
  "dispatches (assert_failure s) s' es = dispatches s s' es"
  by (simp_all add: dispatches_def assert_failure_def)

lemma dispatches_active_update [simp]:
  "dispatches s (s'\<lparr>active := x\<rparr>) es = dispatches s s' es"
  "dispatches (s\<lparr>active := x\<rparr>) s' es = dispatches s s' es"
  "dispatches s (s'\<lparr>next_event_index := i\<rparr>) es = dispatches s s' es"
  "dispatches (s\<lparr>next_event_index := i\<rparr>) s' es = dispatches s s' es"
  "dispatches s (s'\<lparr>curr_t := t\<rparr>) es = dispatches s s' es"
  by (simp_all add: dispatches_def)

lemma step_active_result:
  "same_schedule s (step_active now xs s) \<and> active (step_active now xs s) = active s
   \<and> dispatches s (step_active now xs s) (step_entries s now xs)"
proof (induction xs arbitrary: s)
  case Nil
  show ?case by (simp add: step_entries_def)
next
  case (Cons x xs)
  let ?s1 = "enqueue_event (ev_n (arena s ! x)) ET_step False (now - ev_time (arena s ! x)) s"
  have ss: "same_schedule s ?s1" by simp
  have ar: "arena ?s1 = arena s" using ss by (simp add: same_schedule_def)
  have d1: "dispatches s ?s1
     (if delivers s (ev_n (arena s ! x)) ET_step False
      then [EventQueueEntry (ev_n (arena s ! x)) ET_step (now - ev_time (arena s ! x))] else [])"
    by (rule dispatches_enqueue_event)
  have se: "step_entries ?s1 now xs = step_entries s now xs"
    by (simp add: step_entries_def ar delivers_same_schedule [OF ss])
  have d2: "dispatches ?s1 (step_active now xs ?s1) (step_entries s now xs)"
    using Cons.IH [of ?s1] se by simp
  have "dispatches s (step_active now xs ?s1)
     ((if delivers s (ev_n (arena s ! x)) ET_step False
      then [EventQueueEntry (ev_n (arena s ! x)) ET_step (now - ev_time (arena s ! x))] else [])
      @ step_entries s now xs)"
    by (rule dispatches_trans [OF d1 d2])
  moreover have "same_schedule s (step_active now xs ?s1)"
    using same_schedule_trans [OF ss] Cons.IH [of ?s1] by blast
  moreover have "active (step_active now xs ?s1) = active s"
    using Cons.IH [of ?s1] by simp
  ultimately show ?case
    by (cases "delivers s (ev_n (arena s ! x)) ET_step False") (simp_all add: step_entries_def)
qed

lemma appends_refl [simp]: "appends s s"
  unfolding appends_def using dispatches_refl by blast

lemma appends_trans: "appends s s1 \<Longrightarrow> appends s1 s2 \<Longrightarrow> appends s s2"
  unfolding appends_def using dispatches_trans by blast

lemma appendsI: "dispatches s s' es \<Longrightarrow> appends s s'"
  unfolding appends_def by blast

lemma appends_enqueue_event [simp]: "appends s (enqueue_event n event_type is_initial time s)"
  using dispatches_enqueue_event appendsI by blast

lemma appends_update [simp]:
  "appends s (assert_failure s') = appends s s'"
  "appends (assert_failure s) s' = appends s s'"
  "appends s (s'\<lparr>active := x\<rparr>) = appends s s'"
  "appends (s\<lparr>active := x\<rparr>) s' = appends s s'"
  "appends s (s'\<lparr>next_event_index := i\<rparr>) = appends s s'"
  "appends (s\<lparr>next_event_index := i\<rparr>) s' = appends s s'"
  "appends s (s'\<lparr>curr_t := t\<rparr>) = appends s s'"
  by (simp_all add: appends_def)

lemma appends_prefix:
  "appends s s' \<Longrightarrow> prefix (event_queue s) (event_queue s') \<and> prefix (invoked s) (invoked s')"
  unfolding appends_def using dispatches_prefix by blast

lemma appends_enqueue_event_active [simp]:
  "appends s (enqueue_event n event_type is_initial time (s\<lparr>active := x\<rparr>))"
  using appends_enqueue_event [of "s\<lparr>active := x\<rparr>" n event_type is_initial time]
  by (simp del: appends_enqueue_event)

lemma appends_do_event_forward:
  "appends s (fst (do_event_forward event is_initial (s, new_active)))"
  by (simp add: do_event_forward_def Let_def pset_insert_def pset_erase_def
      split: PlaybackEventType.split)

lemma appends_do_event_reverse:
  "appends s (fst (do_event_reverse event is_initial (s, new_active)))"
  by (simp add: do_event_reverse_def Let_def pset_insert_def pset_erase_def
      split: PlaybackEventType.split)

lemma initialize_new_active_result:
  "same_schedule s (initialize_new_active event_type now xs s)
   \<and> appends s (initialize_new_active event_type now xs s)"
proof (induction xs arbitrary: s)
  case Nil
  show ?case by simp
next
  case (Cons x xs)
  let ?s1 = "enqueue_event (ev_n (arena s ! x)) event_type False (now - ev_time (arena s ! x)) s"
  let ?s2 = "?s1\<lparr>active := fst (pset_insert (address_of ?s1) x (active ?s1))\<rparr>"
  have 1: "same_schedule s ?s2" "appends s ?s2"
    using same_schedule_enqueue_event [of s "ev_n (arena s ! x)" event_type False
        "now - ev_time (arena s ! x)"]
    by (simp_all add: same_schedule_def)
  have 2: "same_schedule s (initialize_new_active event_type now xs ?s2)"
    "appends s (initialize_new_active event_type now xs ?s2)"
    using Cons.IH [of ?s2] 1 same_schedule_trans appends_trans by blast+
  have 3: "same_schedule s (assert_failure ?s2)"
    using 1 same_schedule_trans same_schedule_assert_failure by blast
  obtain a1 ins where p: "pset_insert (address_of ?s1) x (active ?s1) = (a1, ins)"
    by (cases "pset_insert (address_of ?s1) x (active ?s1)")
  show ?case
    using 1 2 3 p by (cases ins) (simp_all add: Let_def)
qed

lemma finish_events_forward_result:
  "same_schedule s (finish_events_forward now new_active s)
   \<and> appends s (finish_events_forward now new_active s)"
  unfolding finish_events_forward_def
  using step_active_result [of s now "active s"] appendsI
    initialize_new_active_result [of "step_active now (active s) s" ET_initialize now new_active]
    same_schedule_trans appends_trans by blast

lemma finish_events_reverse_result:
  "same_schedule s (finish_events_reverse now new_active s)
   \<and> appends s (finish_events_reverse now new_active s)"
  unfolding finish_events_reverse_def
  using step_active_result [of s now "active s"] appendsI
    initialize_new_active_result [of "step_active now (active s) s" ET_reverse_initialize
      now new_active]
    same_schedule_trans appends_trans by blast

lemma forward_events_stop:
  "\<not> forward_pending now s \<Longrightarrow> forward_events now is_initial (s, new_active) = (s, new_active)"
  by (subst forward_events.simps) (auto simp: forward_pending_def)

lemma forward_events_step:
  "forward_pending now s \<Longrightarrow>
   do_event_forward (events s ! next_event_index s) is_initial (s, new_active) = (s1, na1) \<Longrightarrow>
   forward_events now is_initial (s, new_active) =
     forward_events now is_initial (s1\<lparr>next_event_index := next_event_index s1 + 1\<rparr>, na1)"
  by (subst forward_events.simps) (simp add: forward_pending_def)

lemma forward_events_induct [case_names stop step]:
  assumes "\<And>s na. \<not> forward_pending now s \<Longrightarrow> P (s, na)"
    and "\<And>s na s1 na1. forward_pending now s \<Longrightarrow>
           do_event_forward (events s ! next_event_index s) is_initial (s, na) = (s1, na1) \<Longrightarrow>
           P (s1\<lparr>next_event_index := next_event_index s1 + 1\<rparr>, na1) \<Longrightarrow> P (s, na)"
  shows "P x"
proof -
  have "P (s, na)" for s na
  proof (induction "length (events s) - next_event_index s" arbitrary: s na rule: less_induct)
    case less
    show ?case
    proof (cases "forward_pending now s")
      case False
      then show ?thesis by (rule assms(1))
    next
      case True
      obtain s1 na1 where d:
        "do_event_forward (events s ! next_event_index s) is_initial (s, na) = (s1, na1)"
        by (cases "do_event_forward (events s ! next_event_index s) is_initial (s, na)")
      have "same_schedule s s1"
        using same_schedule_do_event_forward [of s "events s ! next_event_index s" is_initial na] d
        by simp
      then have "length (events (s1\<lparr>next_event_index := next_event_index s1 + 1\<rparr>))
                   - next_event_index (s1\<lparr>next_event_index := next_event_index s1 + 1\<rparr>)
                 < length (events s) - next_event_index s"
        using True by (auto simp: same_schedule_def forward_pending_def)
      then have "P (s1\<lparr>next_event_index := next_event_index s1 + 1\<rparr>, na1)"
        by (rule less.hyps)
      then show ?thesis
        using assms(2) [OF True d] by simp
    qed
  qed
  then show ?thesis by (cases x) simp
qed

lemma finalize_events_stop:
  "\<not> next_event_index s < length (events s) \<Longrightarrow> finalize_events (s, new_active) = (s, new_active)"
  by (subst finalize_events.simps) auto

lemma finalize_events_step:
  "next_event_index s < length (events s) \<Longrightarrow>
   do_event_forward (events s ! next_event_index s) False (s, new_active) = (s1, na1) \<Longrightarrow>
   finalize_events (s, new_active) =
     finalize_events (s1\<lparr>next_event_index := next_event_index s1 + 1\<rparr>, na1)"
  by (subst finalize_events.simps) simp

lemma finalize_events_induct [case_names stop step]:
  assumes "\<And>s na. \<not> next_event_index s < length (events s) \<Longrightarrow> P (s, na)"
    and "\<And>s na s1 na1. next_event_index s < length (events s) \<Longrightarrow>
           do_event_forward (events s ! next_event_index s) False (s, na) = (s1, na1) \<Longrightarrow>
           P (s1\<lparr>next_event_index := next_event_index s1 + 1\<rparr>, na1) \<Longrightarrow> P (s, na)"
  shows "P x"
proof -
  have "P (s, na)" for s na
  proof (induction "length (events s) - next_event_index s" arbitrary: s na rule: less_induct)
    case less
    show ?case
    proof (cases "next_event_index s < length (events s)")
      case False
      then show ?thesis by (rule assms(1))
    next
      case True
      obtain s1 na1 where d:
        "do_event_forward (events s ! next_event_index s) False (s, na) = (s1, na1)"
        by (cases "do_event_forward (events s ! next_event_index s) False (s, na)")
      have "same_schedule s s1"
        using same_schedule_do_event_forward [of s "events s ! next_event_index s" False na] d
        by simp
      then have "length (events (s1\<lparr>next_event_index := next_event_index s1 + 1\<rparr>))
                   - next_event_index (s1\<lparr>next_event_index := next_event_index s1 + 1\<rparr>)
                 < length (events s) - next_event_index s"
        using True by (auto simp: same_schedule_def)
      then have "P (s1\<lparr>next_event_index := next_event_index s1 + 1\<rparr>, na1)"
        by (rule less.hyps)
      then show ?thesis
        using assms(2) [OF True d] by simp
    qed
  qed
  then show ?thesis by (cases x) simp
qed

lemma reverse_events_stop:
  "\<not> reverse_pending now s \<Longrightarrow> reverse_events now is_initial (s, new_active) = (s, new_active)"
  by (subst reverse_events.simps) (auto simp: reverse_pending_def)

lemma reverse_events_step:
  "reverse_pending now s \<Longrightarrow>
   reverse_events now is_initial (s, new_active) =
     reverse_events now is_initial
       (do_event_reverse (events s ! (next_event_index s - 1)) is_initial
          (s\<lparr>next_event_index := next_event_index s - 1\<rparr>, new_active))"
  by (subst reverse_events.simps) (simp add: reverse_pending_def Let_def)

lemma reverse_events_induct [case_names stop step]:
  assumes "\<And>s na. \<not> reverse_pending now s \<Longrightarrow> P (s, na)"
    and "\<And>s na s1 na1. reverse_pending now s \<Longrightarrow>
           do_event_reverse (events s ! (next_event_index s - 1)) is_initial
             (s\<lparr>next_event_index := next_event_index s - 1\<rparr>, na) = (s1, na1) \<Longrightarrow>
           P (s1, na1) \<Longrightarrow> P (s, na)"
  shows "P x"
proof -
  have "P (s, na)" for s na
  proof (induction "next_event_index s" arbitrary: s na rule: less_induct)
    case less
    show ?case
    proof (cases "reverse_pending now s")
      case False
      then show ?thesis by (rule assms(1))
    next
      case True
      let ?s0 = "s\<lparr>next_event_index := next_event_index s - 1\<rparr>"
      obtain s1 na1 where d:
        "do_event_reverse (events s ! (next_event_index s - 1)) is_initial (?s0, na) = (s1, na1)"
        by (cases "do_event_reverse (events s ! (next_event_index s - 1)) is_initial (?s0, na)")
      have "same_schedule ?s0 s1"
        using same_schedule_do_event_reverse
          [of ?s0 "events s ! (next_event_index s - 1)" is_initial na] d
        by simp
      then have "next_event_index s1 < next_event_index s"
        using True by (auto simp: same_schedule_def reverse_pending_def)
      then have "P (s1, na1)"
        by (rule less.hyps)
      then show ?thesis
        using assms(2) [OF True d] by simp
    qed
  qed
  then show ?thesis by (cases x) simp
qed

lemma reverse_finalize_events_stop:
  "\<not> next_event_index s > 0 \<Longrightarrow> reverse_finalize_events (s, new_active) = (s, new_active)"
  by (subst reverse_finalize_events.simps) auto

lemma reverse_finalize_events_step:
  "next_event_index s > 0 \<Longrightarrow>
   reverse_finalize_events (s, new_active) =
     reverse_finalize_events
       (do_event_reverse (events s ! (next_event_index s - 1)) False
          (s\<lparr>next_event_index := next_event_index s - 1\<rparr>, new_active))"
  by (subst reverse_finalize_events.simps) (simp add: Let_def)

lemma reverse_finalize_events_induct [case_names stop step]:
  assumes "\<And>s na. \<not> next_event_index s > 0 \<Longrightarrow> P (s, na)"
    and "\<And>s na s1 na1. next_event_index s > 0 \<Longrightarrow>
           do_event_reverse (events s ! (next_event_index s - 1)) False
             (s\<lparr>next_event_index := next_event_index s - 1\<rparr>, na) = (s1, na1) \<Longrightarrow>
           P (s1, na1) \<Longrightarrow> P (s, na)"
  shows "P x"
proof -
  have "P (s, na)" for s na
  proof (induction "next_event_index s" arbitrary: s na rule: less_induct)
    case less
    show ?case
    proof (cases "next_event_index s > 0")
      case False
      then show ?thesis by (rule assms(1))
    next
      case True
      let ?s0 = "s\<lparr>next_event_index := next_event_index s - 1\<rparr>"
      obtain s1 na1 where d:
        "do_event_reverse (events s ! (next_event_index s - 1)) False (?s0, na) = (s1, na1)"
        by (cases "do_event_reverse (events s ! (next_event_index s - 1)) False (?s0, na)")
      have "same_schedule ?s0 s1"
        using same_schedule_do_event_reverse
          [of ?s0 "events s ! (next_event_index s - 1)" False na] d
        by simp
      then have "next_event_index s1 < next_event_index s"
        using True by (auto simp: same_schedule_def)
      then have "P (s1, na1)"
        by (rule less.hyps)
      then show ?thesis
        using assms(2) [OF True d] by simp
    qed
  qed
  then show ?thesis by (cases x) simp
qed

lemma scanned_refl [simp]: "scanned s s"
  by (simp add: scanned_def)

lemma scanned_trans: "scanned s s1 \<Longrightarrow> scanned s1 s2 \<Longrightarrow> scanned s s2"
  unfolding scanned_def using appends_trans by (auto simp: same_schedule_def)

lemma scanned_do_event_forward:
  "do_event_forward event is_initial (s, na) = (s1, na1) \<Longrightarrow>
   scanned s (s1\<lparr>next_event_index := i\<rparr>)"
  using same_schedule_do_event_forward [of s event is_initial na]
    appends_do_event_forward [of s event is_initial na]
  by (simp add: scanned_def same_schedule_def)

lemma scanned_do_event_reverse:
  "do_event_reverse event is_initial (s\<lparr>next_event_index := i\<rparr>, na) = (s1, na1) \<Longrightarrow>
   scanned s s1"
  using same_schedule_do_event_reverse [of "s\<lparr>next_event_index := i\<rparr>" event is_initial na]
    appends_do_event_reverse [of "s\<lparr>next_event_index := i\<rparr>" event is_initial na]
  by (simp add: scanned_def same_schedule_def)

lemma scanned_forward_events:
  "scanned (fst x) (fst (forward_events now is_initial x))"
proof (induction x rule: forward_events_induct [of now _ is_initial])
  case (stop s na)
  then show ?case by (simp add: forward_events_stop)
next
  case (step s na s1 na1)
  show ?case
    using step.IH scanned_do_event_forward [OF step.hyps(2)] scanned_trans
    by (fastforce simp: forward_events_step [OF step.hyps(1,2)])
qed

lemma scanned_finalize_events:
  "scanned (fst x) (fst (finalize_events x))"
proof (induction x rule: finalize_events_induct)
  case (stop s na)
  then show ?case by (simp add: finalize_events_stop)
next
  case (step s na s1 na1)
  show ?case
    using step.IH scanned_do_event_forward [OF step.hyps(2)] scanned_trans
    by (fastforce simp: finalize_events_step [OF step.hyps(1,2)])
qed

lemma scanned_reverse_events:
  "scanned (fst x) (fst (reverse_events now is_initial x))"
proof (induction x rule: reverse_events_induct [of now _ is_initial])
  case (stop s na)
  then show ?case by (simp add: reverse_events_stop)
next
  case (step s na s1 na1)
  have "reverse_events now is_initial (s, na) = reverse_events now is_initial (s1, na1)"
    using reverse_events_step [OF step.hyps(1), of is_initial na] step.hyps(2) by simp
  then show ?case
    using step.IH scanned_do_event_reverse [OF step.hyps(2)] scanned_trans by fastforce
qed

lemma scanned_reverse_finalize_events:
  "scanned (fst x) (fst (reverse_finalize_events x))"
proof (induction x rule: reverse_finalize_events_induct)
  case (stop s na)
  then show ?case by (simp add: reverse_finalize_events_stop)
next
  case (step s na s1 na1)
  have "reverse_finalize_events (s, na) = reverse_finalize_events (s1, na1)"
    using reverse_finalize_events_step [OF step.hyps(1), of na] step.hyps(2) by simp
  then show ?case
    using step.IH scanned_do_event_reverse [OF step.hyps(2)] scanned_trans by fastforce
qed

lemma recompute_loop_stop:
  "\<not> (n < length (defs s) \<and> def_type (defs s ! n) \<noteq> DT_pop_level) \<Longrightarrow>
   recompute_loop n lb pb pe le s =
     (n, le, if n < length (defs s) then set_actual_begin_time n le s else s)"
  by (subst recompute_loop.simps) auto

lemma recompute_loop_null:
  "n < length (defs s) \<Longrightarrow> def_type (defs s ! n) = DT_c_interval \<Longrightarrow>
   c_interval (defs s ! n) = None \<Longrightarrow>
   recompute_loop n lb pb pe le s = (length (defs s), le, assert_failure s)"
  by (subst recompute_loop.simps) simp

lemma recompute_loop_action:
  "n < length (defs s) \<Longrightarrow> action_duration (defs s ! n) = Some dur \<Longrightarrow>
   bt = get_begin_time (defs s ! n) lb pb pe \<Longrightarrow>
   recompute_loop n lb pb pe le s =
     recompute_loop (n + 1) lb bt (bt + dur) (max le (bt + dur))
       (push_events bt (bt + dur) n (set_actual_begin_time n bt s))"
  by (subst recompute_loop.simps)
    (auto simp: action_duration_def Let_def split: DefType.splits option.splits)

lemma recompute_loop_push:
  "n < length (defs s) \<Longrightarrow> def_type (defs s ! n) = DT_push_level \<Longrightarrow>
   bt = get_begin_time (defs s ! n) lb pb pe \<Longrightarrow>
   recompute_loop (n + 1) bt bt bt bt (set_actual_begin_time n bt s) = (n1, et, s2) \<Longrightarrow>
   recompute_loop n lb pb pe le s = recompute_loop (n1 + 1) lb bt et (max le et) s2"
  by (subst recompute_loop.simps) (simp add: Let_def)

lemma recompute_loop_induct [case_names stop null action push]:
  assumes stop: "\<And>n lb pb pe le s.
      \<not> (n < length (defs s) \<and> def_type (defs s ! n) \<noteq> DT_pop_level) \<Longrightarrow> P n lb pb pe le s"
    and null: "\<And>n lb pb pe le s.
      n < length (defs s) \<Longrightarrow> def_type (defs s ! n) = DT_c_interval \<Longrightarrow>
      c_interval (defs s ! n) = None \<Longrightarrow> P n lb pb pe le s"
    and action: "\<And>n lb pb pe le s dur bt.
      n < length (defs s) \<Longrightarrow> action_duration (defs s ! n) = Some dur \<Longrightarrow>
      bt = get_begin_time (defs s ! n) lb pb pe \<Longrightarrow>
      P (n + 1) lb bt (bt + dur) (max le (bt + dur))
        (push_events bt (bt + dur) n (set_actual_begin_time n bt s)) \<Longrightarrow>
      P n lb pb pe le s"
    and push: "\<And>n lb pb pe le s bt n1 et s2.
      n < length (defs s) \<Longrightarrow> def_type (defs s ! n) = DT_push_level \<Longrightarrow>
      bt = get_begin_time (defs s ! n) lb pb pe \<Longrightarrow>
      recompute_loop (n + 1) bt bt bt bt (set_actual_begin_time n bt s) = (n1, et, s2) \<Longrightarrow>
      P (n + 1) bt bt bt bt (set_actual_begin_time n bt s) \<Longrightarrow>
      P (n1 + 1) lb bt et (max le et) s2 \<Longrightarrow>
      P n lb pb pe le s"
  shows "P n lb pb pe le s"
proof (induction n lb pb pe le s rule: recompute_loop.induct)
  case (1 n lb pb pe le s)
  show ?case
  proof (cases "n < length (defs s) \<and> def_type (defs s ! n) \<noteq> DT_pop_level")
    case False
    then show ?thesis by (rule stop)
  next
    case True
    define d where "d = defs s ! n"
    define bt where "bt = get_begin_time d lb pb pe"
    define s1 where "s1 = set_actual_begin_time n bt s"
    have n: "n < length (defs s)" using True by simp
    have bt: "bt = get_begin_time (defs s ! n) lb pb pe" by (simp add: bt_def d_def)
    show ?thesis
    proof (cases "def_type d")
      case DT_c_interval
      show ?thesis
      proof (cases "c_interval d")
        case None
        show ?thesis
          using null [OF n] DT_c_interval None by (simp add: d_def)
      next
        case (Some c)
        have a: "action_duration (defs s ! n) = Some (ci_duration c)"
          using DT_c_interval Some by (simp add: action_duration_def d_def)
        have "P (n + 1) lb bt (bt + ci_duration c) (max le (bt + ci_duration c))
                (push_events bt (bt + ci_duration c) n s1)"
          using "1.IH"(1) [OF True d_def bt_def DT_c_interval Some s1_def refl refl] .
        then show ?thesis
          using action [OF n a bt] by (simp add: s1_def)
      qed
    next
      case DT_ext_index
      have a: "action_duration (defs s ! n) = Some (ext_duration d)"
        using DT_ext_index by (simp add: action_duration_def d_def)
      have "P (n + 1) lb bt (bt + ext_duration d) (max le (bt + ext_duration d))
              (push_events bt (bt + ext_duration d) n s1)"
        using "1.IH"(2) [OF True d_def bt_def DT_ext_index s1_def refl refl] .
      then show ?thesis
        using action [OF n a bt] by (simp add: s1_def)
    next
      case DT_push_level
      obtain n1 et s2 where inner: "recompute_loop (n + 1) bt bt bt bt s1 = (n1, et, s2)"
        by (cases "recompute_loop (n + 1) bt bt bt bt s1") auto
      have i1: "P (n + 1) bt bt bt bt s1"
        using "1.IH"(3) [OF True d_def bt_def DT_push_level s1_def] .
      have i2: "P (n1 + 1) lb bt et (max le et) s2"
        using "1.IH"(4) [OF True d_def bt_def DT_push_level s1_def inner [symmetric] refl refl] .
      show ?thesis
        using push [OF n _ bt, of n1 et s2] DT_push_level inner i1 i2
        by (simp add: d_def s1_def)
    next
      case DT_pop_level
      then show ?thesis using True by (simp add: d_def)
    qed
  qed
qed

lemma same_playback_refl [simp]: "same_playback s s"
  by (simp add: same_playback_def)

lemma same_playback_trans:
  "same_playback s s1 \<Longrightarrow> same_playback s1 s2 \<Longrightarrow> same_playback s s2"
  by (simp add: same_playback_def)

lemma same_playback_steps [simp]:
  "same_playback s (set_actual_begin_time n t s)"
  "same_playback s (push_events b e n s)"
  "same_playback s (assert_failure s)"
  by (simp_all add: same_playback_def set_actual_begin_time_def push_events_def
      new_PlaybackEvent_def assert_failure_def Let_def)

lemma same_playback_recompute_loop:
  "same_playback s (snd (snd (recompute_loop n lb pb pe le s)))"
proof (induction n lb pb pe le s rule: recompute_loop_induct)
  case (stop n lb pb pe le s)
  then show ?case by (simp add: recompute_loop_stop)
next
  case (null n lb pb pe le s)
  then show ?case by (simp add: recompute_loop_null)
next
  case (action n lb pb pe le s dur bt)
  have "same_playback s (push_events bt (bt + dur) n (set_actual_begin_time n bt s))"
    using same_playback_steps same_playback_trans by blast
  then show ?case
    using action.IH same_playback_trans
    by (auto simp: recompute_loop_action [OF action.hyps])
next
  case (push n lb pb pe le s bt n1 et s2)
  have "same_playback s s2"
    using push.IH(1) push.hyps(4) same_playback_steps(1) same_playback_trans
    by (metis snd_conv)
  then show ?case
    using push.IH(2) same_playback_trans
    by (auto simp: recompute_loop_push [OF push.hyps])
qed

lemma appends_recompute [simp]: "appends s (recompute s)"
proof -
  obtain n le s2 where r: "recompute_level 0 0 (clear_events (s\<lparr>dirty := False\<rparr>)) = (n, le, s2)"
    by (cases "recompute_level 0 0 (clear_events (s\<lparr>dirty := False\<rparr>))") auto
  have "same_playback (clear_events (s\<lparr>dirty := False\<rparr>)) s2"
    using same_playback_recompute_loop [of "clear_events (s\<lparr>dirty := False\<rparr>)" 0 0 0 0 0] r
    by (simp add: recompute_level_def)
  then have "event_queue s2 = event_queue s" "invoked s2 = invoked s"
    by (simp_all add: same_playback_def clear_events_def)
  then have "dispatches s (do_recompute s) []"
    using r by (simp add: do_recompute_def dispatches_def Let_def)
  then show ?thesis
    using appendsI by (auto simp: recompute_def)
qed

lemma appends_scan:
  "scanned s s' \<Longrightarrow> appends s s'"
  by (simp add: scanned_def)

lemma appends_forward_events:
  "forward_events now is_initial (s, na) = (s', na') \<Longrightarrow> appends s s'"
  using scanned_forward_events [of "(s, na)" now is_initial] by (simp add: scanned_def)

lemma appends_reverse_events:
  "reverse_events now is_initial (s, na) = (s', na') \<Longrightarrow> appends s s'"
  using scanned_reverse_events [of "(s, na)" now is_initial] by (simp add: scanned_def)

lemma appends_finalize_events:
  "finalize_events (s, na) = (s', na') \<Longrightarrow> appends s s'"
  using scanned_finalize_events [of "(s, na)"] by (simp add: scanned_def)

lemma appends_reverse_finalize_events:
  "reverse_finalize_events (s, na) = (s', na') \<Longrightarrow> appends s s'"
  using scanned_reverse_finalize_events [of "(s, na)"] by (simp add: scanned_def)

lemma appends_finish_events_forward: "appends s (finish_events_forward now na s)"
  using finish_events_forward_result by blast

lemma appends_finish_events_reverse: "appends s (finish_events_reverse now na s)"
  using finish_events_reverse_result by blast

lemma instant_events_result:
  "same_schedule s (instant_events event_type xs s)
   \<and> active (instant_events event_type xs s) = active s
   \<and> dispatches s (instant_events event_type xs s) (instant_entries s event_type xs)"
proof (induction xs arbitrary: s)
  case Nil
  show ?case by (simp add: instant_entries_def)
next
  case (Cons x xs)
  let ?s1 = "if ev_type (arena s ! x) \<noteq> PET_begin
             then enqueue_event (ev_n (arena s ! x)) event_type True 0 s else s"
  have ss: "same_schedule s ?s1" by simp
  have ac: "active ?s1 = active s" by simp
  have d1: "dispatches s ?s1 (instant_entries s event_type [x])"
    using dispatches_enqueue_event [of s "ev_n (arena s ! x)" event_type True 0]
    by (cases "delivers s (ev_n (arena s ! x)) event_type True") (simp_all add: instant_entries_def)
  have ie: "instant_entries ?s1 event_type xs = instant_entries s event_type xs"
    using ss delivers_same_schedule [OF ss]
    by (simp add: instant_entries_def same_schedule_def)
  have d2: "dispatches ?s1 (instant_events event_type xs ?s1) (instant_entries s event_type xs)"
    using Cons.IH [of ?s1] ie by simp
  have "dispatches s (instant_events event_type xs ?s1)
          (instant_entries s event_type [x] @ instant_entries s event_type xs)"
    by (rule dispatches_trans [OF d1 d2])
  moreover have "instant_entries s event_type [x] @ instant_entries s event_type xs
                 = instant_entries s event_type (x # xs)"
    by (simp add: instant_entries_def)
  moreover have "same_schedule s (instant_events event_type xs ?s1)"
    using same_schedule_trans [OF ss] Cons.IH [of ?s1] by blast
  moreover have "active (instant_events event_type xs ?s1) = active s"
    using Cons.IH [of ?s1] ac by simp
  ultimately show ?case
    by simp
qed

lemma appends_initialize: "appends s (initialize t s)"
proof -
  let ?s2 = "(recompute s)\<lparr>next_event_index := 0, active := []\<rparr>"
  obtain s3 na where f: "forward_events t True (?s2, []) = (s3, na)"
    by (cases "forward_events t True (?s2, [])")
  have "appends s ?s2" by simp
  moreover have "appends ?s2 s3" using appends_forward_events [OF f] .
  moreover have "appends s3 (finish_events_forward t na s3)"
    by (rule appends_finish_events_forward)
  ultimately have "appends s (finish_events_forward t na s3)"
    using appends_trans by blast
  then show ?thesis
    using f by (simp add: initialize_def Let_def)
qed

lemma appends_reverse_initialize: "appends s (reverse_initialize t s)"
proof -
  let ?s2 = "(recompute s)\<lparr>next_event_index := length (events (recompute s)), active := []\<rparr>"
  obtain s3 na where f: "reverse_events t True (?s2, []) = (s3, na)"
    by (cases "reverse_events t True (?s2, [])")
  have "appends s ?s2" by simp
  moreover have "appends ?s2 s3" using appends_reverse_events [OF f] .
  moreover have "appends s3 (finish_events_reverse t na s3)"
    by (rule appends_finish_events_reverse)
  ultimately have "appends s (finish_events_reverse t na s3)"
    using appends_trans by blast
  then show ?thesis
    using f by (simp add: reverse_initialize_def Let_def)
qed

lemma appends_step: "appends s (step t s)"
proof (cases "forward_pending t s")
  case True
  obtain s1 na where f: "forward_events t False (s, []) = (s1, na)"
    by (cases "forward_events t False (s, [])")
  have "appends s (finish_events_forward t na s1)"
    using appends_forward_events [OF f] appends_finish_events_forward appends_trans by blast
  then show ?thesis
    using True f by (simp add: step_def Let_def forward_pending_def)
next
  case False
  obtain s1 na where f: "reverse_events t False (s, []) = (s1, na)"
    by (cases "reverse_events t False (s, [])")
  have "appends s (finish_events_reverse t na s1)"
    using appends_reverse_events [OF f] appends_finish_events_reverse appends_trans by blast
  then show ?thesis
    using False f by (auto simp: step_def Let_def forward_pending_def)
qed

lemma appends_finalize: "appends s (finalize s)"
proof -
  obtain s1 na where f: "finalize_events (s, []) = (s1, na)"
    by (cases "finalize_events (s, [])")
  let ?s2 = "s1\<lparr>curr_t := get_duration s1\<rparr>"
  have "appends s ?s2"
    using appends_finalize_events [OF f] by simp
  then have "appends s (finish_events_forward (curr_t ?s2) na ?s2)"
    using appends_finish_events_forward appends_trans by blast
  then show ?thesis
    using f by (simp add: finalize_def Let_def)
qed

lemma appends_reverse_finalize: "appends s (reverse_finalize s)"
proof -
  obtain s1 na where f: "reverse_finalize_events (s, []) = (s1, na)"
    by (cases "reverse_finalize_events (s, [])")
  have "appends s (finish_events_reverse 0 na s1)"
    using appends_reverse_finalize_events [OF f] appends_finish_events_reverse appends_trans
    by blast
  then show ?thesis
    using f by (simp add: reverse_finalize_def Let_def)
qed

lemma appends_instant_events: "appends s (instant_events event_type xs s)"
  using instant_events_result appendsI by blast

lemma appends_instant: "appends s (instant s)"
proof -
  let ?s2 = "(recompute s)\<lparr>active := []\<rparr>"
  have "appends s ?s2" by simp
  then have "appends s (instant_events ET_instant (events ?s2) ?s2)"
    using appends_instant_events appends_trans by blast
  then show ?thesis
    by (simp add: instant_def Let_def appends_def dispatches_def)
qed

lemma appends_reverse_instant: "appends s (reverse_instant s)"
proof -
  let ?s2 = "(recompute s)\<lparr>active := []\<rparr>"
  have "appends s ?s2" by simp
  then have "appends s (instant_events ET_reverse_instant (rev (events ?s2)) ?s2)"
    using appends_instant_events appends_trans by blast
  then show ?thesis
    by (simp add: reverse_instant_def Let_def appends_def dispatches_def)
qed

text \<open>
  Claim C10. None of the seven playback operations removes an entry from the deferred queue:
  the queue before the call is a prefix of the queue after it.
\<close>

theorem playback_keeps_queue:
  "prefix (event_queue s) (event_queue (initialize t s))
   \<and> prefix (event_queue s) (event_queue (reverse_initialize t s))
   \<and> prefix (event_queue s) (event_queue (step t s))
   \<and> prefix (event_queue s) (event_queue (finalize s))
   \<and> prefix (event_queue s) (event_queue (instant s))
   \<and> prefix (event_queue s) (event_queue (reverse_instant s))
   \<and> prefix (event_queue s) (event_queue (reverse_finalize s))"
  using appends_prefix [OF appends_initialize] appends_prefix [OF appends_reverse_initialize]
    appends_prefix [OF appends_step] appends_prefix [OF appends_finalize]
    appends_prefix [OF appends_instant] appends_prefix [OF appends_reverse_instant]
    appends_prefix [OF appends_reverse_finalize]
  by blast

lemma delivers_instant:
  "event_type = ET_instant \<or> event_type = ET_reverse_instant \<Longrightarrow>
   delivers s n event_type True = open_ended_action s n"
  by (auto simp: delivers_def open_ended_action_def split: option.split)

text \<open>
  Claim C2, as the code has it. \<^verbatim>\<open>instant\<close> passes \<^verbatim>\<open>is_initial = true\<close>, so an Instant
  callback is delivered, in the order of the compiled list, for every event that is not a
  Begin event and whose action is open-ended, and for no other; the active set is empty
  afterwards, the cursor is at the end of the list and the current time is the duration.
\<close>

theorem instant_result:
  "active (instant s) = []
   \<and> next_event_index (instant s) = length (events (instant s))
   \<and> curr_t (instant s) = duration (instant s)
   \<and> defs (instant s) = defs (recompute s)
   \<and> arena (instant s) = arena (recompute s)
   \<and> events (instant s) = events (recompute s)
   \<and> duration (instant s) = duration (recompute s)
   \<and> invoked (instant s) @ event_queue (instant s) =
       invoked s @ event_queue s @
       map (\<lambda>event. EventQueueEntry (ev_n (arena (recompute s) ! event)) ET_instant 0)
         (filter (\<lambda>event. ev_type (arena (recompute s) ! event) \<noteq> PET_begin
                    \<and> open_ended_action (recompute s) (ev_n (arena (recompute s) ! event)))
            (events (recompute s)))
   \<and> prefix (invoked s) (invoked (instant s))
   \<and> prefix (event_queue s) (event_queue (instant s))"
proof -
  let ?r = "recompute s"
  let ?s2 = "?r\<lparr>active := []\<rparr>"
  let ?s3 = "instant_events ET_instant (events ?s2) ?s2"
  let ?es = "map (\<lambda>event. EventQueueEntry (ev_n (arena ?r ! event)) ET_instant 0)
         (filter (\<lambda>event. ev_type (arena ?r ! event) \<noteq> PET_begin
                    \<and> open_ended_action ?r (ev_n (arena ?r ! event))) (events ?r))"
  have r: "same_schedule ?s2 ?s3" "active ?s3 = active ?s2"
    "dispatches ?s2 ?s3 (instant_entries ?s2 ET_instant (events ?s2))"
    using instant_events_result [of ?s2 ET_instant "events ?s2"] by blast+
  have d: "delivers ?s2 = delivers ?r"
    by (simp add: delivers_def fun_eq_iff)
  have e: "instant_entries ?s2 ET_instant (events ?s2) = ?es"
    by (simp add: instant_entries_def d delivers_instant)
  obtain es0 where "dispatches s ?r es0"
    using appends_recompute [of s] by (auto simp: appends_def)
  have rq: "invoked ?r = invoked s" "event_queue ?r = event_queue s"
  proof -
    obtain n le s2 where c: "recompute_level 0 0 (clear_events (s\<lparr>dirty := False\<rparr>)) = (n, le, s2)"
      by (cases "recompute_level 0 0 (clear_events (s\<lparr>dirty := False\<rparr>))") auto
    have "same_playback (clear_events (s\<lparr>dirty := False\<rparr>)) s2"
      using same_playback_recompute_loop [of "clear_events (s\<lparr>dirty := False\<rparr>)" 0 0 0 0 0] c
      by (simp add: recompute_level_def)
    then have "event_queue s2 = event_queue s" "invoked s2 = invoked s"
      by (simp_all add: same_playback_def clear_events_def)
    then show "invoked ?r = invoked s" "event_queue ?r = event_queue s"
      using c by (simp_all add: recompute_def do_recompute_def Let_def)
  qed
  have disp: "dispatches s (instant s) ?es"
    using r(3) e rq by (simp add: dispatches_def instant_def Let_def)
  have i: "instant s = ?s3\<lparr>next_event_index := length (events ?s3),
              curr_t := duration ?s3\<rparr>"
    by (simp add: instant_def Let_def get_duration_def)
  show ?thesis
    using r(1,2) dispatches_log [OF disp] dispatches_prefix [OF disp]
    by (simp add: i same_schedule_def)
qed

lemma pending_same_schedule:
  "same_schedule s s' \<Longrightarrow> forward_pending now s' = forward_pending now s"
  "same_schedule s s' \<Longrightarrow> reverse_pending now s' = reverse_pending now s"
  by (simp_all add: same_schedule_def forward_pending_def reverse_pending_def)

lemma forward_events_settled:
  "forward_pending now (fst x) \<or> \<not> reverse_pending now (fst x) \<Longrightarrow>
   settled now (fst (forward_events now is_initial x))"
proof (induction x rule: forward_events_induct [of now _ is_initial])
  case (stop s na)
  then show ?case by (simp add: forward_events_stop settled_def)
next
  case (step s na s1 na1)
  have ss: "same_schedule s s1"
    using same_schedule_do_event_forward [of s "events s ! next_event_index s" is_initial na]
      step.hyps(2) by simp
  have "\<not> reverse_pending now (s1\<lparr>next_event_index := next_event_index s1 + 1\<rparr>)"
    using step.hyps(1) ss by (simp add: forward_pending_def reverse_pending_def same_schedule_def)
  then show ?case
    using step.IH by (simp add: forward_events_step [OF step.hyps(1,2)])
qed

lemma reverse_events_settled:
  "reverse_pending now (fst x) \<or> \<not> forward_pending now (fst x) \<Longrightarrow>
   settled now (fst (reverse_events now is_initial x))"
proof (induction x rule: reverse_events_induct [of now _ is_initial])
  case (stop s na)
  then show ?case by (simp add: reverse_events_stop settled_def)
next
  case (step s na s1 na1)
  have ss: "same_schedule (s\<lparr>next_event_index := next_event_index s - 1\<rparr>) s1"
    using same_schedule_do_event_reverse
      [of "s\<lparr>next_event_index := next_event_index s - 1\<rparr>"
        "events s ! (next_event_index s - 1)" is_initial na]
      step.hyps(2) by simp
  have "\<not> forward_pending now s1"
    using step.hyps(1) ss by (auto simp: forward_pending_def reverse_pending_def same_schedule_def)
  moreover have "reverse_events now is_initial (s, na) = reverse_events now is_initial (s1, na1)"
    using reverse_events_step [OF step.hyps(1), of is_initial na] step.hyps(2) by simp
  ultimately show ?case
    using step.IH by simp
qed

lemma settled_step: "settled t (step t s)"
proof (cases "forward_pending t s")
  case True
  obtain s1 na where f: "forward_events t False (s, []) = (s1, na)"
    by (cases "forward_events t False (s, [])")
  have "settled t s1"
    using forward_events_settled [of t "(s, [])" False] True f by simp
  then have "settled t (finish_events_forward t na s1)"
    using finish_events_forward_result [of s1 t na] pending_same_schedule
    by (auto simp: settled_def)
  then have "settled t ((finish_events_forward t na s1)\<lparr>curr_t := t\<rparr>)"
    by (simp add: settled_def forward_pending_def reverse_pending_def)
  then show ?thesis
    using True f by (simp add: step_def Let_def forward_pending_def)
next
  case False
  obtain s1 na where f: "reverse_events t False (s, []) = (s1, na)"
    by (cases "reverse_events t False (s, [])")
  have "settled t s1"
    using reverse_events_settled [of t "(s, [])" False] False f by simp
  then have "settled t (finish_events_reverse t na s1)"
    using finish_events_reverse_result [of s1 t na] pending_same_schedule
    by (auto simp: settled_def)
  then have "settled t ((finish_events_reverse t na s1)\<lparr>curr_t := t\<rparr>)"
    by (simp add: settled_def forward_pending_def reverse_pending_def)
  then show ?thesis
    using False f by (auto simp: step_def Let_def forward_pending_def)
qed

lemma step_settled:
  "settled t s \<Longrightarrow> step t s = (step_active t (active s) s)\<lparr>curr_t := t\<rparr>"
  by (auto simp: settled_def step_def Let_def forward_pending_def reverse_events_stop
      finish_events_reverse_def)

lemma curr_t_step [simp]: "curr_t (step t s) = t"
  by (simp add: step_def Let_def)

text \<open>
  Claim C1, as the code has it. A second \<^verbatim>\<open>step t\<close> right after \<^verbatim>\<open>step t\<close> scans no event:
  it is the step pass of \<^verbatim>\<open>finish_events_reverse\<close> alone. The active set, the cursor and the
  rest of the schedule stay, and exactly one Step callback is delivered for every member of
  the active set, invoked at once or appended to the queue.
\<close>

theorem step_twice:
  "step t (step t s) = (step_active t (active (step t s)) (step t s))\<lparr>curr_t := t\<rparr>
   \<and> active (step t (step t s)) = active (step t s)
   \<and> next_event_index (step t (step t s)) = next_event_index (step t s)
   \<and> same_schedule (step t s) (step t (step t s))
   \<and> invoked (step t (step t s)) @ event_queue (step t (step t s)) =
       invoked (step t s) @ event_queue (step t s) @
       step_entries (step t s) t (active (step t s))
   \<and> prefix (invoked (step t s)) (invoked (step t (step t s)))
   \<and> prefix (event_queue (step t s)) (event_queue (step t (step t s)))"
proof -
  let ?s1 = "step t s"
  let ?s2 = "step_active t (active ?s1) ?s1"
  have e: "step t ?s1 = ?s2\<lparr>curr_t := t\<rparr>"
    using step_settled [OF settled_step] .
  have r: "same_schedule ?s1 ?s2" "active ?s2 = active ?s1"
    "dispatches ?s1 ?s2 (step_entries ?s1 t (active ?s1))"
    using step_active_result [of ?s1 t "active ?s1"] by blast+
  have c: "curr_t ?s2 = t"
    using r(1) by (simp add: same_schedule_def)
  show ?thesis
    using r(1,2) dispatches_log [OF r(3)] dispatches_prefix [OF r(3)] c
    by (simp add: e same_schedule_def)
qed

text \<open>
  The claim as stated fails: after \<^verbatim>\<open>initialize 0\<close> and \<^verbatim>\<open>step 1\<close> on one native action of
  two ticks, a second \<^verbatim>\<open>step 1\<close> invokes a further Step callback.
\<close>

theorem step_twice_counterexample:
  "invoked (step 1 (initialize 0 scenario_open)) =
     [EventQueueEntry 0 ET_initialize 0, EventQueueEntry 0 ET_step 1]
   \<and> invoked (step 1 (step 1 (initialize 0 scenario_open))) =
     [EventQueueEntry 0 ET_initialize 0, EventQueueEntry 0 ET_step 1, EventQueueEntry 0 ET_step 1]"
  by code_simp

text \<open>
  The claim as stated fails: the End event of an action that is not open-ended gets no
  callback from \<^verbatim>\<open>instant\<close>.
\<close>

theorem instant_counterexample:
  "events (instant scenario_closed) = [0, 1]
   \<and> ev_type (arena (instant scenario_closed) ! 1) = PET_end
   \<and> invoked (instant scenario_closed) = []
   \<and> event_queue (instant scenario_closed) = []"
  by code_simp

text \<open>
  The Initialize callbacks of one call go out in the order of the heap addresses of the
  Begin events, the order of the iterator of \<^verbatim>\<open>new_active\<close>: in the order of the
  definitions where the addresses rise with the allocations, against it where they fall.
\<close>

lemma initialize_follows_addresses:
  "invoked (initialize 0 (scenario_pair heap_up))
     = [EventQueueEntry 0 ET_initialize 0, EventQueueEntry 1 ET_initialize 0]
   \<and> active (initialize 0 (scenario_pair heap_up)) = [0, 2]
   \<and> invoked (initialize 0 (scenario_pair heap_down))
       = [EventQueueEntry 1 ET_initialize 0, EventQueueEntry 0 ET_initialize 0]
   \<and> active (initialize 0 (scenario_pair heap_down)) = [2, 0]"
  by code_simp

section \<open>Properties of the compiler\<close>

lemma same_defs_refl [simp]: "same_defs ds ds"
  by (simp add: same_defs_def)

lemma same_defs_trans: "same_defs a b \<Longrightarrow> same_defs b c \<Longrightarrow> same_defs a c"
  by (simp add: same_defs_def)

lemma same_defs_length: "same_defs ds ds' \<Longrightarrow> length ds' = length ds"
  unfolding same_defs_def using map_eq_imp_length_eq by blast

lemma same_defs_nth:
  assumes "same_defs ds ds'" and "i < length ds"
  shows "(ds' ! i)\<lparr>actual_begin_time := 0\<rparr> = (ds ! i)\<lparr>actual_begin_time := 0\<rparr>"
proof -
  have "map (\<lambda>d. d\<lparr>actual_begin_time := 0\<rparr>) ds' ! i = map (\<lambda>d. d\<lparr>actual_begin_time := 0\<rparr>) ds ! i"
    using assms(1) by (simp add: same_defs_def)
  then show ?thesis
    using assms(2) same_defs_length [OF assms(1)] by simp
qed

lemma same_defs_fields:
  assumes "same_defs ds ds'" and "i < length ds"
  shows "def_type (ds' ! i) = def_type (ds ! i)"
    and "c_interval (ds' ! i) = c_interval (ds ! i)"
    and "ext_duration (ds' ! i) = ext_duration (ds ! i)"
    and "ext_open_ended (ds' ! i) = ext_open_ended (ds ! i)"
    and "rel_time (ds' ! i) = rel_time (ds ! i)"
    and "rel_to (ds' ! i) = rel_to (ds ! i)"
proof -
  note e = same_defs_nth [OF assms]
  show "def_type (ds' ! i) = def_type (ds ! i)"
    using arg_cong [OF e, of def_type] by simp
  show "c_interval (ds' ! i) = c_interval (ds ! i)"
    using arg_cong [OF e, of c_interval] by simp
  show "ext_duration (ds' ! i) = ext_duration (ds ! i)"
    using arg_cong [OF e, of ext_duration] by simp
  show "ext_open_ended (ds' ! i) = ext_open_ended (ds ! i)"
    using arg_cong [OF e, of ext_open_ended] by simp
  show "rel_time (ds' ! i) = rel_time (ds ! i)"
    using arg_cong [OF e, of rel_time] by simp
  show "rel_to (ds' ! i) = rel_to (ds ! i)"
    using arg_cong [OF e, of rel_to] by simp
qed

lemma same_defs_action:
  assumes "same_defs ds ds'" and "i < length ds"
  shows "action_duration (ds' ! i) = action_duration (ds ! i)"
    and "action_open_ended (ds' ! i) = action_open_ended (ds ! i)"
    and "nesting_delta (ds' ! i) = nesting_delta (ds ! i)"
  using same_defs_fields [OF assms]
  by (simp_all add: action_duration_def action_open_ended_def nesting_delta_def
      cong: DefType.case_cong)

lemma same_defs_set_actual_begin_time [simp]:
  "same_defs (defs s) (defs (set_actual_begin_time n t s))"
proof (cases "n < length (defs s)")
  case True
  have "(map (\<lambda>d. d\<lparr>actual_begin_time := 0\<rparr>) (defs s))
          [n := map (\<lambda>d. d\<lparr>actual_begin_time := 0\<rparr>) (defs s) ! n]
        = map (\<lambda>d. d\<lparr>actual_begin_time := 0\<rparr>) (defs s)"
    by (rule list_update_id)
  then show ?thesis
    using True by (simp add: same_defs_def set_actual_begin_time_def map_update)
next
  case False
  then have "(defs s)[n := (defs s ! n)\<lparr>actual_begin_time := t\<rparr>] = defs s"
    by (simp add: list_update_beyond)
  then show ?thesis
    by (simp add: same_defs_def set_actual_begin_time_def)
qed

lemma same_defs_recompute_loop:
  "same_defs (defs s) (defs (snd (snd (recompute_loop n lb pb pe le s))))"
proof (induction n lb pb pe le s rule: recompute_loop_induct)
  case (stop n lb pb pe le s)
  then show ?case by (simp add: recompute_loop_stop)
next
  case (null n lb pb pe le s)
  then show ?case by (simp add: recompute_loop_null assert_failure_def)
next
  case (action n lb pb pe le s dur bt)
  have "same_defs (defs s) (defs (push_events bt (bt + dur) n (set_actual_begin_time n bt s)))"
    by simp
  from same_defs_trans [OF this action.IH] show ?case
    by (simp add: recompute_loop_action [OF action.hyps])
next
  case (push n lb pb pe le s bt n1 et s2)
  have "same_defs (defs s) (defs s2)"
    using push.IH(1) push.hyps(4) same_defs_set_actual_begin_time same_defs_trans
    by (metis snd_conv)
  from same_defs_trans [OF this push.IH(2)] show ?case
    by (simp add: recompute_loop_push [OF push.hyps])
qed

lemma push_events_arena:
  "arena (push_events bt (bt + dur) n s) = arena s @ action_events bt dur n (length (arena s))"
  by (simp add: push_events_def action_events_def new_PlaybackEvent_def Let_def
      set_begin_event_def nth_append)

lemma push_events_events:
  "events (push_events bt (bt + dur) n s) =
     events s @ [length (arena s) ..< length (arena s) + length (action_events bt dur n (length (arena s)))]"
  by (simp add: push_events_def action_events_def new_PlaybackEvent_def Let_def upt_rec)

lemma assert_failures_push_events [simp]:
  "assert_failures (push_events b e n s) = assert_failures s"
  by (simp add: push_events_def new_PlaybackEvent_def Let_def)

lemma event_ok_append:
  "p < length A \<Longrightarrow> event_ok ds A p \<Longrightarrow> event_ok ds (A @ B) p"
  by (auto simp: event_ok_def nth_append split: PlaybackEventType.splits option.splits)

lemma event_ok_new:
  assumes "action_duration (ds ! k) = Some dur"
    and "p < length (A @ action_events bt dur k (length A))" and "length A \<le> p"
  shows "event_ok ds (A @ action_events bt dur k (length A)) p
         \<and> ev_n ((A @ action_events bt dur k (length A)) ! p) = k"
proof (cases "dur = 0")
  case True
  then have "p = length A"
    using assms(2,3) by (simp add: action_events_def)
  then show ?thesis
    using True assms(1) by (simp add: event_ok_def action_events_def)
next
  case False
  then have "p = length A \<or> p = Suc (length A)"
    using assms(2,3) by (auto simp: action_events_def)
  then show ?thesis
    using False assms(1) by (auto simp: event_ok_def action_events_def nth_append)
qed

lemma compiled_upto_skip:
  assumes "compiled_upto ds A m" and "m < length ds \<longrightarrow> action_duration (ds ! m) = None"
  shows "compiled_upto ds A (Suc m)"
proof -
  have 1: "\<forall>p<length A. ev_n (A ! p) < Suc m \<and> ev_n (A ! p) < length ds \<and> event_ok ds A p"
    using assms(1) by (auto simp: compiled_upto_def less_Suc_eq)
  have 4: "\<forall>k<Suc m. k < length ds \<longrightarrow> action_duration (ds ! k) \<noteq> None \<longrightarrow>
             (\<exists>p<length A. ev_n (A ! p) = k)"
    using assms by (auto simp: compiled_upto_def less_Suc_eq)
  show ?thesis
    using assms(1) 1 4 unfolding compiled_upto_def by blast
qed

lemma compiled_upto_action:
  assumes c: "compiled_upto ds A k" and k: "k < length ds"
    and d: "action_duration (ds ! k) = Some dur"
  shows "compiled_upto ds (A @ action_events bt dur k (length A)) (Suc k)"
proof -
  let ?B = "action_events bt dur k (length A)"
  let ?A = "A @ ?B"
  have old: "\<And>p. p < length A \<Longrightarrow> ev_n (A ! p) < k \<and> ev_n (A ! p) < length ds \<and> event_ok ds A p"
    using c by (simp add: compiled_upto_def)
  have nth_old: "\<And>p. p < length A \<Longrightarrow> ?A ! p = A ! p"
    by (simp add: nth_append)
  have new: "\<And>p. p < length ?A \<Longrightarrow> length A \<le> p \<Longrightarrow> event_ok ds ?A p \<and> ev_n (?A ! p) = k"
    using event_ok_new [OF d] by blast
  have 1: "\<forall>p<length ?A. ev_n (?A ! p) < Suc k \<and> ev_n (?A ! p) < length ds \<and> event_ok ds ?A p"
  proof (intro allI impI)
    fix p assume p: "p < length ?A"
    show "ev_n (?A ! p) < Suc k \<and> ev_n (?A ! p) < length ds \<and> event_ok ds ?A p"
    proof (cases "p < length A")
      case True
      then show ?thesis
        using old [OF True] event_ok_append [of p A ds ?B] nth_old [OF True] by simp
    next
      case False
      then show ?thesis
        using new [OF p] k by simp
    qed
  qed
  have 2: "\<forall>p q. p < q \<longrightarrow> q < length ?A \<longrightarrow> ev_n (?A ! p) \<le> ev_n (?A ! q)"
  proof (intro allI impI)
    fix p q assume pq: "p < q" and q: "q < length ?A"
    show "ev_n (?A ! p) \<le> ev_n (?A ! q)"
    proof (cases "q < length A")
      case True
      then show ?thesis
        using c pq nth_old by (simp add: compiled_upto_def)
    next
      case False
      then have qn: "ev_n (?A ! q) = k" using new [OF q] by simp
      show ?thesis
      proof (cases "p < length A")
        case True
        then show ?thesis using old [OF True] nth_old [OF True] qn by simp
      next
        case False
        then show ?thesis using new [of p] pq q qn by simp
      qed
    qed
  qed
  have 3: "\<forall>p q. p < q \<longrightarrow> q < length ?A \<longrightarrow> ev_n (?A ! p) = ev_n (?A ! q) \<longrightarrow>
             q = Suc p \<and> ev_type (?A ! p) = PET_begin"
  proof (intro allI impI)
    fix p q assume pq: "p < q" and q: "q < length ?A" and e: "ev_n (?A ! p) = ev_n (?A ! q)"
    show "q = Suc p \<and> ev_type (?A ! p) = PET_begin"
    proof (cases "q < length A")
      case True
      then show ?thesis
        using c pq e nth_old by (simp add: compiled_upto_def)
    next
      case False
      then have qn: "ev_n (?A ! q) = k" using new [OF q] by simp
      show ?thesis
      proof (cases "p < length A")
        case True
        then show ?thesis using old [OF True] nth_old [OF True] qn e by simp
      next
        case False
        then show ?thesis
          using pq q \<open>\<not> q < length A\<close>
          by (auto simp: action_events_def nth_append split: if_splits)
      qed
    qed
  qed
  have 4: "\<forall>j<Suc k. j < length ds \<longrightarrow> action_duration (ds ! j) \<noteq> None \<longrightarrow>
             (\<exists>p<length ?A. ev_n (?A ! p) = j)"
  proof (intro allI impI)
    fix j assume j: "j < Suc k" "j < length ds" "action_duration (ds ! j) \<noteq> None"
    show "\<exists>p<length ?A. ev_n (?A ! p) = j"
    proof (cases "j = k")
      case True
      have l: "length A < length ?A" by (simp add: action_events_def)
      then have "ev_n (?A ! length A) = j"
        using new [of "length A"] True by simp
      then show ?thesis
        using l by blast
    next
      case False
      then have "j < k" using j(1) by simp
      then obtain p where "p < length A" "ev_n (A ! p) = j"
        using c j by (auto simp: compiled_upto_def)
      then show ?thesis
        using nth_old [of p] by (intro exI [of _ p]) simp
    qed
  qed
  show ?thesis
    unfolding compiled_upto_def using 1 2 3 4 by blast
qed

lemma handles_ok_nth:
  "handles_ok ds \<Longrightarrow> n < length ds \<Longrightarrow> def_type (ds ! n) = DT_c_interval \<Longrightarrow>
   c_interval (ds ! n) \<noteq> None"
  by (auto simp: handles_ok_def list_all_length)

lemma recompute_loop_compiled:
  assumes "same_defs ds (defs s)" and "handles_ok ds"
    and "compiled_upto ds (arena s) n" and "events s = [0..<length (arena s)]"
  shows "compiled_upto ds (arena (snd (snd (recompute_loop n lb pb pe le s))))
           (fst (recompute_loop n lb pb pe le s))
         \<and> events (snd (snd (recompute_loop n lb pb pe le s))) =
             [0..<length (arena (snd (snd (recompute_loop n lb pb pe le s))))]
         \<and> assert_failures (snd (snd (recompute_loop n lb pb pe le s))) = assert_failures s
         \<and> (fst (recompute_loop n lb pb pe le s) < length ds \<longrightarrow>
              def_type (ds ! fst (recompute_loop n lb pb pe le s)) = DT_pop_level)"
  using assms
proof (induction n lb pb pe le s rule: recompute_loop_induct)
  case (stop n lb pb pe le s)
  have l: "length (defs s) = length ds"
    using same_defs_length [OF stop.prems(1)] .
  have "n < length ds \<longrightarrow> def_type (ds ! n) = DT_pop_level"
    using stop.hyps same_defs_fields(1) [OF stop.prems(1)] l by auto
  then show ?case
    using stop.prems
    by (simp add: recompute_loop_stop [OF stop.hyps] set_actual_begin_time_def)
next
  case (null n lb pb pe le s)
  have l: "length (defs s) = length ds"
    using same_defs_length [OF null.prems(1)] .
  have "def_type (ds ! n) = DT_c_interval" "c_interval (ds ! n) = None"
    using null.hyps same_defs_fields(1,2) [OF null.prems(1), of n] l by simp_all
  then show ?case
    using handles_ok_nth [OF null.prems(2), of n] null.hyps(1) l by simp
next
  case (action n lb pb pe le s dur bt)
  let ?s1 = "push_events bt (bt + dur) n (set_actual_begin_time n bt s)"
  have l: "length (defs s) = length ds"
    using same_defs_length [OF action.prems(1)] .
  have n: "n < length ds" using action.hyps(1) l by simp
  have d: "action_duration (ds ! n) = Some dur"
    using same_defs_action(1) [OF action.prems(1) n] action.hyps(2) by simp
  have ar: "arena ?s1 = arena s @ action_events bt dur n (length (arena s))"
    by (simp add: push_events_arena set_actual_begin_time_def)
  have 1: "same_defs ds (defs ?s1)"
    using same_defs_trans [OF action.prems(1) same_defs_set_actual_begin_time] by simp
  have 3: "compiled_upto ds (arena ?s1) (n + 1)"
    using compiled_upto_action [OF action.prems(3) n d, of bt] ar by simp
  have "events ?s1 = [0..<length (arena s)]
          @ [length (arena s)..<length (arena s) + length (action_events bt dur n (length (arena s)))]"
    using action.prems(4) by (simp add: push_events_events set_actual_begin_time_def)
  also have "\<dots> = [0..<length (arena s) + length (action_events bt dur n (length (arena s)))]"
    using upt_add_eq_append [of 0 "length (arena s)"] by simp
  finally have 4: "events ?s1 = [0..<length (arena ?s1)]"
    by (simp only: ar length_append)
  have af: "assert_failures ?s1 = assert_failures s"
    by (simp add: set_actual_begin_time_def)
  show ?case
    using action.IH [OF 1 action.prems(2) 3 4] af
    by (simp add: recompute_loop_action [OF action.hyps])
next
  case (push n lb pb pe le s bt n1 et s2)
  let ?s1 = "set_actual_begin_time n bt s"
  have l: "length (defs s) = length ds"
    using same_defs_length [OF push.prems(1)] .
  have n: "n < length ds" using push.hyps(1) l by simp
  have t: "def_type (ds ! n) = DT_push_level"
    using same_defs_fields(1) [OF push.prems(1) n] push.hyps(2) by simp
  have 1: "same_defs ds (defs ?s1)"
    using same_defs_trans [OF push.prems(1) same_defs_set_actual_begin_time] .
  have 3: "compiled_upto ds (arena ?s1) (n + 1)"
    using compiled_upto_skip [OF push.prems(3)] t
    by (simp add: action_duration_def set_actual_begin_time_def)
  have 4: "events ?s1 = [0..<length (arena ?s1)]"
    using push.prems(4) by (simp add: set_actual_begin_time_def)
  note i = push.IH(1) [OF 1 push.prems(2) 3 4, unfolded push.hyps(4), simplified]
  have j1: "same_defs ds (defs s2)"
    using same_defs_trans [OF 1 same_defs_recompute_loop [of ?s1 "n + 1" bt bt bt bt]]
      push.hyps(4) by simp
  have j3: "compiled_upto ds (arena s2) (n1 + 1)"
    using compiled_upto_skip [of ds "arena s2" n1] i
    by (simp add: action_duration_def)
  have j4: "events s2 = [0..<length (arena s2)]"
    using i by simp
  have af: "assert_failures s2 = assert_failures s"
    using i by (simp add: set_actual_begin_time_def)
  show ?case
    using push.IH(2) [OF j1 push.prems(2) j3 j4] af
    by (simp add: recompute_loop_push [OF push.hyps])
qed

lemma nesting_depth_take_Suc:
  "n < length ds \<Longrightarrow>
   nesting_depth (take (Suc n) ds) = nesting_depth (take n ds) + nesting_delta (ds ! n)"
  by (simp add: nesting_depth_def take_Suc_conv_app_nth)

lemma recompute_loop_index:
  assumes "same_defs ds (defs s)" and "handles_ok ds" and "n \<le> length ds"
  shows "(fst (recompute_loop n lb pb pe le s) < length ds \<longrightarrow>
            def_type (ds ! fst (recompute_loop n lb pb pe le s)) = DT_pop_level
            \<and> nesting_depth (take (fst (recompute_loop n lb pb pe le s)) ds)
              = nesting_depth (take n ds))
         \<and> (length ds \<le> fst (recompute_loop n lb pb pe le s) \<longrightarrow>
              int (fst (recompute_loop n lb pb pe le s))
                = int (length ds) + nesting_depth ds - nesting_depth (take n ds))"
  using assms
proof (induction n lb pb pe le s rule: recompute_loop_induct)
  case (stop n lb pb pe le s)
  have l: "length (defs s) = length ds"
    using same_defs_length [OF stop.prems(1)] .
  have "n < length ds \<longrightarrow> def_type (ds ! n) = DT_pop_level"
    using stop.hyps same_defs_fields(1) [OF stop.prems(1)] l by auto
  then show ?case
    using stop.prems(3) by (auto simp: recompute_loop_stop [OF stop.hyps])
next
  case (null n lb pb pe le s)
  have l: "length (defs s) = length ds"
    using same_defs_length [OF null.prems(1)] .
  have "def_type (ds ! n) = DT_c_interval" "c_interval (ds ! n) = None"
    using null.hyps same_defs_fields(1,2) [OF null.prems(1), of n] l by simp_all
  then show ?case
    using handles_ok_nth [OF null.prems(2), of n] null.hyps(1) l by simp
next
  case (action n lb pb pe le s dur bt)
  let ?s1 = "push_events bt (bt + dur) n (set_actual_begin_time n bt s)"
  have l: "length (defs s) = length ds"
    using same_defs_length [OF action.prems(1)] .
  have n: "n < length ds" using action.hyps(1) l by simp
  have "action_duration (ds ! n) = Some dur"
    using same_defs_action(1) [OF action.prems(1) n] action.hyps(2) by simp
  then have "nesting_delta (ds ! n) = 0"
    by (auto simp: action_duration_def nesting_delta_def split: DefType.splits)
  then have d: "nesting_depth (take (n + 1) ds) = nesting_depth (take n ds)"
    using nesting_depth_take_Suc [OF n] by simp
  have 1: "same_defs ds (defs ?s1)"
    using same_defs_trans [OF action.prems(1) same_defs_set_actual_begin_time] by simp
  show ?case
    using action.IH [OF 1 action.prems(2)] n d
    by (simp add: recompute_loop_action [OF action.hyps])
next
  case (push n lb pb pe le s bt n1 et s2)
  let ?s1 = "set_actual_begin_time n bt s"
  have l: "length (defs s) = length ds"
    using same_defs_length [OF push.prems(1)] .
  have n: "n < length ds" using push.hyps(1) l by simp
  have t: "def_type (ds ! n) = DT_push_level"
    using same_defs_fields(1) [OF push.prems(1) n] push.hyps(2) by simp
  have d: "nesting_depth (take (n + 1) ds) = nesting_depth (take n ds) + 1"
    using nesting_depth_take_Suc [OF n] t by (simp add: nesting_delta_def)
  have 1: "same_defs ds (defs ?s1)"
    using same_defs_trans [OF push.prems(1) same_defs_set_actual_begin_time] .
  have c: "compiled_upto ds [] 0"
    by (simp add: compiled_upto_def)
  note i = push.IH(1) [OF 1 push.prems(2), unfolded push.hyps(4), simplified]
  have j1: "same_defs ds (defs s2)"
    using same_defs_trans [OF 1 same_defs_recompute_loop [of ?s1 "n + 1" bt bt bt bt]]
      push.hyps(4) by simp
  have r: "recompute_loop n lb pb pe le s = recompute_loop (n1 + 1) lb bt et (max le et) s2"
    by (rule recompute_loop_push [OF push.hyps])
  show ?case
  proof (cases "n1 < length ds")
    case True
    have p: "def_type (ds ! n1) = DT_pop_level"
      using i n True by simp
    have "nesting_depth (take (n1 + 1) ds) = nesting_depth (take n ds)"
      using nesting_depth_take_Suc [OF True] p i n True d by (simp add: nesting_delta_def)
    then show ?thesis
      using push.IH(2) [OF j1 push.prems(2)] True by (simp add: r)
  next
    case False
    have "recompute_loop (n1 + 1) lb bt et (max le et) s2 = (n1 + 1, max le et, s2)"
      using False same_defs_length [OF j1] by (simp add: recompute_loop_stop)
    then show ?thesis
      using i n False d by (simp add: r)
  qed
qed

lemma emitted_in_order_mono: "emitted_in_order A m \<Longrightarrow> m \<le> m' \<Longrightarrow> emitted_in_order A m'"
  by (auto simp: emitted_in_order_def)

lemma emitted_in_order_action:
  "emitted_in_order A n \<Longrightarrow> emitted_in_order (A @ action_events bt dur n p) (Suc n)"
  by (auto simp: emitted_in_order_def action_events_def sorted_append less_Suc_eq dest: less_imp_le)

lemma recompute_loop_order:
  assumes "emitted_in_order (arena s) n" and "events s = [0..<length (arena s)]"
  shows "emitted_in_order (arena (snd (snd (recompute_loop n lb pb pe le s))))
           (fst (recompute_loop n lb pb pe le s))
         \<and> events (snd (snd (recompute_loop n lb pb pe le s))) =
             [0..<length (arena (snd (snd (recompute_loop n lb pb pe le s))))]"
  using assms
proof (induction n lb pb pe le s rule: recompute_loop_induct)
  case (stop n lb pb pe le s)
  then show ?case
    by (simp add: recompute_loop_stop set_actual_begin_time_def)
next
  case (null n lb pb pe le s)
  then show ?case
    using emitted_in_order_mono [of "arena s" n "length (defs s)"]
    by (simp add: recompute_loop_null assert_failure_def)
next
  case (action n lb pb pe le s dur bt)
  let ?s1 = "push_events bt (bt + dur) n (set_actual_begin_time n bt s)"
  have ar: "arena ?s1 = arena s @ action_events bt dur n (length (arena s))"
    by (simp add: push_events_arena set_actual_begin_time_def)
  have 1: "emitted_in_order (arena ?s1) (n + 1)"
    using emitted_in_order_action [OF action.prems(1)] ar by simp
  have "events ?s1 = [0..<length (arena s)]
          @ [length (arena s)..<length (arena s) + length (action_events bt dur n (length (arena s)))]"
    using action.prems(2) by (simp add: push_events_events set_actual_begin_time_def)
  also have "\<dots> = [0..<length (arena s) + length (action_events bt dur n (length (arena s)))]"
    using upt_add_eq_append [of 0 "length (arena s)"] by simp
  finally have 2: "events ?s1 = [0..<length (arena ?s1)]"
    by (simp only: ar length_append)
  show ?case
    using action.IH [OF 1 2] by (simp add: recompute_loop_action [OF action.hyps])
next
  case (push n lb pb pe le s bt n1 et s2)
  let ?s1 = "set_actual_begin_time n bt s"
  have 1: "emitted_in_order (arena ?s1) (n + 1)"
    using emitted_in_order_mono [OF push.prems(1), of "n + 1"]
    by (simp add: set_actual_begin_time_def)
  have 2: "events ?s1 = [0..<length (arena ?s1)]"
    using push.prems(2) by (simp add: set_actual_begin_time_def)
  note i = push.IH(1) [OF 1 2, unfolded push.hyps(4), simplified]
  have 3: "emitted_in_order (arena s2) (n1 + 1)"
    using emitted_in_order_mono [of "arena s2" n1 "n1 + 1"] i by simp
  have 4: "events s2 = [0..<length (arena s2)]"
    using i by simp
  show ?case
    using push.IH(2) [OF 3 4] by (simp add: recompute_loop_push [OF push.hyps])
qed

text \<open>The parts of the result of \<^verbatim>\<open>do_recompute\<close>.\<close>

lemma do_recompute_parts:
  assumes "recompute_loop 0 0 0 0 0 (clear_events (s\<lparr>dirty := False\<rparr>)) = (n, le, s2)"
  shows "do_recompute s =
           s2\<lparr>end_time := le,
              warnings := (if n \<noteq> length (defs s2) then Suc (warnings s2) else warnings s2),
              events := sort_key (\<lambda>p. ev_time (arena s2 ! p)) (events s2),
              duration := le\<rparr>"
  using assms by (simp add: do_recompute_def recompute_level_def Let_def)

lemma do_recompute_order:
  "events (do_recompute s) =
     sort_key (\<lambda>p. ev_time (arena (do_recompute s) ! p)) [0..<length (arena (do_recompute s))]
   \<and> sorted (map ev_n (arena (do_recompute s)))"
proof -
  let ?c = "clear_events (s\<lparr>dirty := False\<rparr>)"
  obtain n le s2 where r: "recompute_loop 0 0 0 0 0 ?c = (n, le, s2)"
    by (cases "recompute_loop 0 0 0 0 0 ?c") auto
  have "emitted_in_order (arena ?c) 0" "events ?c = [0..<length (arena ?c)]"
    by (simp_all add: clear_events_def emitted_in_order_def)
  from recompute_loop_order [OF this, of 0 0 0 0] r
  have "emitted_in_order (arena s2) n" "events s2 = [0..<length (arena s2)]"
    by simp_all
  then show ?thesis
    by (simp add: do_recompute_parts [OF r] emitted_in_order_def)
qed



lemma nesting_depth_Cons [simp]:
  "nesting_depth (x # xs) = nesting_delta x + nesting_depth xs"
  by (simp add: nesting_depth_def)

lemma nesting_depth_Nil [simp]: "nesting_depth [] = 0"
  by (simp add: nesting_depth_def)

lemma pops_matched_depth:
  "0 \<le> d \<Longrightarrow> pops_matched ds d \<Longrightarrow> i \<le> length ds \<Longrightarrow>
   0 \<le> d + nesting_depth (take i ds)"
proof (induction ds arbitrary: d i)
  case Nil
  then show ?case by simp
next
  case (Cons x xs)
  show ?case
  proof (cases i)
    case 0
    then show ?thesis using Cons.prems by simp
  next
    case (Suc j)
    then show ?thesis
      using Cons.IH [of "d + nesting_delta x" j] Cons.prems by (simp add: add.assoc)
  qed
qed

lemma compiled_upto_length:
  "compiled_upto ds A m \<Longrightarrow> length ds \<le> m \<Longrightarrow> compiled_upto ds A (length ds)"
  unfolding compiled_upto_def by (meson less_le_trans)

lemma do_recompute_compiled:
  assumes "defs_ok (defs s)"
  shows "compiled_upto (defs s) (arena (do_recompute s)) (length (defs s))
         \<and> same_defs (defs s) (defs (do_recompute s))
         \<and> assert_failures (do_recompute s) = assert_failures s
         \<and> warnings (do_recompute s)
             = (if nesting_depth (defs s) \<noteq> 0 then Suc (warnings s) else warnings s)
         \<and> duration (do_recompute s) = end_time (do_recompute s)
         \<and> \<not> dirty (do_recompute s)
         \<and> active (do_recompute s) = []"
proof -
  let ?ds = "defs s"
  let ?c = "clear_events (s\<lparr>dirty := False\<rparr>)"
  obtain n le s2 where r: "recompute_loop 0 0 0 0 0 ?c = (n, le, s2)"
    by (cases "recompute_loop 0 0 0 0 0 ?c") auto
  have h: "handles_ok ?ds" and pm: "pops_matched ?ds 0"
    using assms by (simp_all add: defs_ok_def)
  have sd: "same_defs ?ds (defs ?c)"
    by (simp add: clear_events_def)
  have c0: "compiled_upto ?ds (arena ?c) 0" "events ?c = [0..<length (arena ?c)]"
    by (simp_all add: clear_events_def compiled_upto_def)
  from recompute_loop_compiled [OF sd h c0, of 0 0 0 0] r
  have c: "compiled_upto ?ds (arena s2) n" and af: "assert_failures s2 = assert_failures ?c"
    by simp_all
  from recompute_loop_index [OF sd h, of 0 0 0 0 0] r
  have i1: "n < length ?ds \<longrightarrow> def_type (?ds ! n) = DT_pop_level
              \<and> nesting_depth (take n ?ds) = 0"
    and i2: "length ?ds \<le> n \<longrightarrow> int n = int (length ?ds) + nesting_depth ?ds"
    by simp_all
  have n: "length ?ds \<le> n"
  proof (rule ccontr)
    assume "\<not> length ?ds \<le> n"
    then have l: "n < length ?ds" by simp
    then have "nesting_depth (take (Suc n) ?ds) = - 1"
      using i1 nesting_depth_take_Suc [OF l] by (simp add: nesting_delta_def)
    then show False
      using pops_matched_depth [OF _ pm, of "Suc n"] l by simp
  qed
  have sd2: "same_defs ?ds (defs s2)"
    using same_defs_trans [OF sd same_defs_recompute_loop [of ?c 0 0 0 0 0]] r by simp
  have sp: "same_playback ?c s2"
    using same_playback_recompute_loop [of ?c 0 0 0 0 0] r by simp
  have w: "(n \<noteq> length (defs s2)) = (nesting_depth ?ds \<noteq> 0)"
    using i2 n same_defs_length [OF sd2] by auto
  show ?thesis
    using compiled_upto_length [OF c n] sd2 af sp w
    by (simp add: do_recompute_parts [OF r] same_playback_def clear_events_def)
qed

text \<open>The events of one action in the arena.\<close>

lemma compiled_upto_begin:
  assumes c: "compiled_upto ds A m" and k: "k < m" "k < length ds"
    and d: "action_duration (ds ! k) = Some dur" and nz: "dur \<noteq> 0"
  shows "\<exists>b tb. Suc b < length A \<and> A ! b = PlaybackEvent tb k PET_begin b
               \<and> A ! Suc b = PlaybackEvent (tb + dur) k PET_end b
               \<and> (\<forall>p<length A. ev_n (A ! p) = k \<longrightarrow> p = b \<or> p = Suc b)"
proof -
  have ok: "\<And>p. p < length A \<Longrightarrow> event_ok ds A p"
    and uniq: "\<And>p q. p < q \<Longrightarrow> q < length A \<Longrightarrow> ev_n (A ! p) = ev_n (A ! q) \<Longrightarrow>
                 q = Suc p \<and> ev_type (A ! p) = PET_begin"
    using c by (auto simp: compiled_upto_def)
  obtain p where p: "p < length A" "ev_n (A ! p) = k"
    using c k d by (auto simp: compiled_upto_def)
  have "\<exists>b<length A. ev_type (A ! b) = PET_begin \<and> ev_n (A ! b) = k"
  proof (cases "ev_type (A ! p)")
    case PET_begin
    then show ?thesis using p by blast
  next
    case PET_end
    then have "ev_type (A ! (p - 1)) = PET_begin \<and> ev_n (A ! (p - 1)) = k"
      using ok [OF p(1)] p(2) by (simp add: event_ok_def)
    then show ?thesis
      using p(1) by (intro exI [of _ "p - 1"]) simp
  next
    case PET_instant
    then show ?thesis
      using ok [OF p(1)] p(2) d nz by (simp add: event_ok_def)
  qed
  then obtain b where b: "b < length A" "ev_type (A ! b) = PET_begin" "ev_n (A ! b) = k"
    by blast
  have bo: "ev_begin_event (A ! b) = b" "Suc b < length A"
    "A ! Suc b = PlaybackEvent (ev_time (A ! b) + dur) k PET_end b"
    using ok [OF b(1)] b(2,3) d by (simp_all add: event_ok_def)
  have be: "A ! b = PlaybackEvent (ev_time (A ! b)) k PET_begin b"
    using b(2,3) bo(1) by (cases "A ! b") simp
  have u: "p = b \<or> p = Suc b" if q: "p < length A" "ev_n (A ! p) = k" for p
  proof -
    consider "p < b" | "p = b" | "b < p" by linarith
    then show ?thesis
    proof cases
      case 1
      then have "b = Suc p" "ev_type (A ! p) = PET_begin"
        using uniq [OF 1 b(1)] q(2) b(3) by simp_all
      then have "ev_type (A ! b) = PET_end"
        using ok [OF q(1)] by (auto simp: event_ok_def split: option.splits)
      then show ?thesis using b(2) by simp
    next
      case 2
      then show ?thesis by simp
    next
      case 3
      then show ?thesis
        using uniq [OF 3 q(1)] q(2) b(3) by simp
    qed
  qed
  show ?thesis
    using bo(2) be bo(3) u by blast
qed

lemma compiled_upto_instant:
  assumes c: "compiled_upto ds A m" and k: "k < m" "k < length ds"
    and d: "action_duration (ds ! k) = Some 0"
  shows "\<exists>i tb. i < length A \<and> A ! i = PlaybackEvent tb k PET_instant i
               \<and> (\<forall>p<length A. ev_n (A ! p) = k \<longrightarrow> p = i)"
proof -
  have ok: "\<And>p. p < length A \<Longrightarrow> event_ok ds A p"
    and uniq: "\<And>p q. p < q \<Longrightarrow> q < length A \<Longrightarrow> ev_n (A ! p) = ev_n (A ! q) \<Longrightarrow>
                 q = Suc p \<and> ev_type (A ! p) = PET_begin"
    using c by (auto simp: compiled_upto_def)
  have nb: "ev_type (A ! p) \<noteq> PET_begin" if "p < length A" "ev_n (A ! p) = k" for p
    using ok [OF that(1)] that(2) d by (auto simp: event_ok_def)
  have inst: "ev_type (A ! p) = PET_instant" if q: "p < length A" "ev_n (A ! p) = k" for p
  proof (cases "ev_type (A ! p)")
    case PET_begin
    then show ?thesis using nb [OF q] by simp
  next
    case PET_end
    then have "ev_type (A ! (p - 1)) = PET_begin \<and> ev_n (A ! (p - 1)) = k" "p - 1 < length A"
      using ok [OF q(1)] q by (simp_all add: event_ok_def)
    then show ?thesis using nb [of "p - 1"] by simp
  next
    case PET_instant
    then show ?thesis .
  qed
  obtain i where i: "i < length A" "ev_n (A ! i) = k"
    using c k d by (auto simp: compiled_upto_def)
  have io: "ev_begin_event (A ! i) = i"
    using ok [OF i(1)] inst [OF i] by (simp add: event_ok_def)
  have ie: "A ! i = PlaybackEvent (ev_time (A ! i)) k PET_instant i"
    using i(2) io inst [OF i] by (cases "A ! i") simp
  have u: "p = i" if q: "p < length A" "ev_n (A ! p) = k" for p
  proof -
    consider "p < i" | "p = i" | "i < p" by linarith
    then show ?thesis
    proof cases
      case 1
      then show ?thesis using uniq [OF 1 i(1)] q i(2) nb [OF q] by simp
    next
      case 2
      then show ?thesis .
    next
      case 3
      then show ?thesis using uniq [OF 3 q(1)] q i(2) nb [OF i] by simp
    qed
  qed
  show ?thesis
    using i(1) ie u by blast
qed

lemma filter_upt_pair:
  assumes "Suc b < n" and "P b" and "P (Suc b)" and "\<forall>p<n. P p \<longrightarrow> p = b \<or> p = Suc b"
  shows "filter P [0..<n] = [b, Suc b]"
proof -
  have "set (filter P [0..<n]) = {p. p < n \<and> P p}"
    by (simp add: set_eq_iff)
  also have "\<dots> = {b, Suc b}"
    using assms by (auto dest: Suc_lessD)
  finally have "set (filter P [0..<n]) = {b, Suc b}" .
  moreover have "sorted (filter P [0..<n])" "distinct (filter P [0..<n])"
    by (simp_all add: sorted_wrt_filter)
  ultimately show ?thesis
    using sorted_distinct_set_unique [of "filter P [0..<n]" "[b, Suc b]"] by simp
qed

lemma filter_upt_single:
  assumes "i < n" and "P i" and "\<forall>p<n. P p \<longrightarrow> p = i"
  shows "filter P [0..<n] = [i]"
proof -
  have "set (filter P [0..<n]) = {p. p < n \<and> P p}"
    by (simp add: set_eq_iff)
  also have "\<dots> = {i}"
    using assms by blast
  finally have "set (filter P [0..<n]) = {i}" .
  moreover have "sorted (filter P [0..<n])" "distinct (filter P [0..<n])"
    by (simp_all add: sorted_wrt_filter)
  ultimately show ?thesis
    using sorted_distinct_set_unique [of "filter P [0..<n]" "[i]"] by simp
qed

text \<open>
  The events of one action. In a definition list built by the append API every action of
  duration 0 has exactly one event, an Instant event; every other action has exactly two,
  a Begin event and an End event that points to it and lies the duration later. In the
  sorted list the Begin event comes first when the duration is positive. No operation
  checks the sign of a duration: where it is negative the End event comes first.
\<close>

lemma compiled_events_of_action:
  assumes "defs_ok (defs s)" and "k < length (defs s)"
    and "action_duration (defs s ! k) = Some dur"
  shows "\<exists>b tb.
           (dur = 0 \<longrightarrow>
              b < length (arena (do_recompute s))
              \<and> arena (do_recompute s) ! b = PlaybackEvent tb k PET_instant b
              \<and> filter (\<lambda>p. ev_n (arena (do_recompute s) ! p) = k) (events (do_recompute s)) = [b])
         \<and> (dur \<noteq> 0 \<longrightarrow>
              Suc b < length (arena (do_recompute s))
              \<and> arena (do_recompute s) ! b = PlaybackEvent tb k PET_begin b
              \<and> arena (do_recompute s) ! Suc b = PlaybackEvent (tb + dur) k PET_end b
              \<and> filter (\<lambda>p. ev_n (arena (do_recompute s) ! p) = k) (events (do_recompute s))
                  = (if 0 < dur then [b, Suc b] else [Suc b, b]))"
proof -
  let ?A = "arena (do_recompute s)"
  let ?f = "\<lambda>p. ev_time (?A ! p)"
  let ?P = "\<lambda>p. ev_n (?A ! p) = k"
  have c: "compiled_upto (defs s) ?A (length (defs s))"
    using do_recompute_compiled [OF assms(1)] by blast
  have e: "events (do_recompute s) = sort_key ?f [0..<length ?A]"
    using do_recompute_order [of s] by blast
  have fe: "filter ?P (events (do_recompute s)) = sort_key ?f (filter ?P [0..<length ?A])"
    by (subst e) (rule filter_sort)
  show ?thesis
  proof (cases "dur = 0")
    case True
    obtain i tb where i: "i < length ?A" "?A ! i = PlaybackEvent tb k PET_instant i"
      "\<forall>p<length ?A. ?P p \<longrightarrow> p = i"
      using compiled_upto_instant [OF c assms(2) assms(2)] assms(3) True by blast
    have pi: "?P i"
      using i(2) by simp
    have "filter ?P [0..<length ?A] = [i]"
      by (rule filter_upt_single [OF i(1) pi i(3)])
    then have "filter ?P (events (do_recompute s)) = [i]"
      by (simp only: fe sort_key_simps insort_key.simps)
    then have "(dur = 0 \<longrightarrow>
              i < length ?A \<and> ?A ! i = PlaybackEvent tb k PET_instant i
              \<and> filter ?P (events (do_recompute s)) = [i])
         \<and> (dur \<noteq> 0 \<longrightarrow>
              Suc i < length ?A
              \<and> ?A ! i = PlaybackEvent tb k PET_begin i
              \<and> ?A ! Suc i = PlaybackEvent (tb + dur) k PET_end i
              \<and> filter ?P (events (do_recompute s))
                  = (if 0 < dur then [i, Suc i] else [Suc i, i]))"
      using True i(1,2) by (simp only: simp_thms)
    then show ?thesis
      by (intro exI)
  next
    case False
    obtain b tb where b: "Suc b < length ?A" "?A ! b = PlaybackEvent tb k PET_begin b"
      "?A ! Suc b = PlaybackEvent (tb + dur) k PET_end b"
      "\<forall>p<length ?A. ?P p \<longrightarrow> p = b \<or> p = Suc b"
      using compiled_upto_begin [OF c assms(2) assms(2) assms(3) False] by blast
    have pb: "?P b" "?P (Suc b)"
      using b(2,3) by simp_all
    have "filter ?P [0..<length ?A] = [b, Suc b]"
      by (rule filter_upt_pair [OF b(1) pb b(4)])
    then have "filter ?P (events (do_recompute s)) = sort_key ?f [b, Suc b]"
      by (simp only: fe)
    also have "\<dots> = (if ?f b \<le> ?f (Suc b) then [b, Suc b] else [Suc b, b])"
      by simp
    also have "\<dots> = (if 0 < dur then [b, Suc b] else [Suc b, b])"
      using False by (simp add: b(2,3))
    finally have "filter ?P (events (do_recompute s))
                  = (if 0 < dur then [b, Suc b] else [Suc b, b])" .
    then have "(dur = 0 \<longrightarrow>
              b < length ?A \<and> ?A ! b = PlaybackEvent tb k PET_instant b
              \<and> filter ?P (events (do_recompute s)) = [b])
         \<and> (dur \<noteq> 0 \<longrightarrow>
              Suc b < length ?A
              \<and> ?A ! b = PlaybackEvent tb k PET_begin b
              \<and> ?A ! Suc b = PlaybackEvent (tb + dur) k PET_end b
              \<and> filter ?P (events (do_recompute s))
                  = (if 0 < dur then [b, Suc b] else [Suc b, b]))"
      using False b(1,2,3) by (simp only: simp_thms)
    then show ?thesis
      by (intro exI)
  qed
qed

lemma compiled_events_of_action_example:
  "defs_ok (defs scenario_E) \<and> 1 < length (defs scenario_E)
   \<and> action_duration (defs scenario_E ! 1) = Some 2
   \<and> (\<exists>b tb. Suc b < length (arena (do_recompute scenario_E))
         \<and> arena (do_recompute scenario_E) ! b = PlaybackEvent tb 1 PET_begin b
         \<and> arena (do_recompute scenario_E) ! Suc b = PlaybackEvent (tb + 2) 1 PET_end b
         \<and> filter (\<lambda>p. ev_n (arena (do_recompute scenario_E) ! p) = 1)
               (events (do_recompute scenario_E)) = [b, Suc b])"
proof -
  have h1: "defs_ok (defs scenario_E)"
    by code_simp
  have h2: "1 < length (defs scenario_E)"
    by code_simp
  have h3: "action_duration (defs scenario_E ! 1) = Some 2"
    by code_simp
  show ?thesis
    using compiled_events_of_action [OF h1 h2 h3] h1 h2 h3 by simp
qed

text \<open>
  Claim C6. The code breaks the claim at a negative duration, which \<^verbatim>\<open>add_ext_index\<close>
  takes unchecked. For the external action of \<open>scenario_negative\<close>, of duration -1, the
  compiler pushes a Begin event at 0 and an End event at -1: the time of the End event is
  less than that of the Begin event, and the sorted list has the End event first. This is
  a list that the playback of the same code rejects: \<^verbatim>\<open>finalize\<close> meets the End event
  with its Begin event in neither set, and \<^verbatim>\<open>nassertv(erase_count == 1)\<close> of
  \<^verbatim>\<open>do_event_forward\<close> fails, after a Finalize callback that comes before the Initialize
  callback of the action.
\<close>

theorem compiled_events_negative_duration:
  "built scenario_negative
   \<and> action_duration (defs scenario_negative ! 0) = Some (- 1)
   \<and> arena (do_recompute scenario_negative) =
       [PlaybackEvent 0 0 PET_begin 0, PlaybackEvent (- 1) 0 PET_end 0]
   \<and> events (do_recompute scenario_negative) = [1, 0]
   \<and> ev_time (arena (do_recompute scenario_negative) ! 1)
       < ev_time (arena (do_recompute scenario_negative) ! 0)
   \<and> assert_failures (recompute scenario_negative) = 0
   \<and> assert_failures (finalize (recompute scenario_negative)) = 1
   \<and> event_queue (finalize (recompute scenario_negative))
       = [EventQueueEntry 0 ET_finalize 0, EventQueueEntry 0 ET_initialize 0]"
  by code_simp







section \<open>Actions skipped by initialize\<close>

lemma untouched_refl [simp]: "untouched k s s"
  by (simp add: untouched_def)

lemma untouched_trans: "untouched k s s1 \<Longrightarrow> untouched k s1 s2 \<Longrightarrow> untouched k s s2"
  by (simp add: untouched_def)

lemma untouched_update [simp]:
  "untouched k s (assert_failure s') = untouched k s s'"
  "untouched k s (s'\<lparr>active := x\<rparr>) = untouched k s s'"
  "untouched k (s\<lparr>active := x\<rparr>) s' = untouched k s s'"
  "untouched k s (s'\<lparr>next_event_index := i\<rparr>) = untouched k s s'"
  "untouched k (s\<lparr>next_event_index := i\<rparr>) s' = untouched k s s'"
  "untouched k s (s'\<lparr>curr_t := t\<rparr>) = untouched k s s'"
  by (simp_all add: untouched_def assert_failure_def)

lemma active_assert_failure [simp]: "active (assert_failure s) = active s"
  by (simp add: assert_failure_def)

lemma untouched_dispatches:
  assumes "dispatches s s' es" and "\<forall>e\<in>set es. entry_n e \<noteq> k"
  shows "untouched k s s'"
proof -
  obtain a b where ab: "invoked s' = invoked s @ a" "event_queue s' = event_queue s @ b"
    "a @ b = es"
    using assms(1) by (auto simp: dispatches_def)
  have "\<forall>e\<in>set a. entry_n e \<noteq> k" "\<forall>e\<in>set b. entry_n e \<noteq> k"
    using ab(3) assms(2) by auto
  then have "filter (\<lambda>e. entry_n e = k) a = []" "filter (\<lambda>e. entry_n e = k) b = []"
    by (simp_all add: filter_empty_conv)
  then show ?thesis
    using ab(1,2) by (simp add: untouched_def)
qed

lemma untouched_enqueue_event:
  "n \<noteq> k \<or> \<not> delivers s n event_type is_initial \<Longrightarrow>
   untouched k s (enqueue_event n event_type is_initial time s)"
  using dispatches_enqueue_event [of s n event_type is_initial time]
  by (auto intro!: untouched_dispatches [of s _ "if delivers s n event_type is_initial
        then [EventQueueEntry n event_type time] else []"])

lemma untouched_initialize_new_active:
  "\<forall>q\<in>set xs. ev_n (arena s ! q) \<noteq> k \<Longrightarrow>
   untouched k s (initialize_new_active event_type now xs s)"
proof (induction xs arbitrary: s)
  case Nil
  show ?case by simp
next
  case (Cons x xs)
  let ?s1 = "enqueue_event (ev_n (arena s ! x)) event_type False (now - ev_time (arena s ! x)) s"
  obtain a1 ins where p: "pset_insert (address_of ?s1) x (active ?s1) = (a1, ins)"
    by (cases "pset_insert (address_of ?s1) x (active ?s1)")
  let ?s2 = "?s1\<lparr>active := a1\<rparr>"
  have u1: "untouched k s ?s2"
    using untouched_enqueue_event [of "ev_n (arena s ! x)" k s event_type False] Cons.prems
    by simp
  have "arena ?s2 = arena s"
    using same_schedule_enqueue_event [of s "ev_n (arena s ! x)" event_type False
        "now - ev_time (arena s ! x)"]
    by (simp add: same_schedule_def)
  then have "untouched k ?s2 (initialize_new_active event_type now xs ?s2)"
    using Cons.IH [of ?s2] Cons.prems by simp
  then have u2: "untouched k s (initialize_new_active event_type now xs ?s2)"
    using untouched_trans [OF u1] by blast
  show ?case
    using u1 u2 p by (cases ins) (simp_all add: Let_def)
qed

lemma untouched_finish_events_forward:
  "active s = [] \<Longrightarrow> \<forall>q\<in>set na. ev_n (arena s ! q) \<noteq> k \<Longrightarrow>
   untouched k s (finish_events_forward now na s)"
  using untouched_initialize_new_active [of na s k ET_initialize now]
  by (simp add: finish_events_forward_def)

text \<open>\<^verbatim>\<open>do_event_forward\<close>, case by case.\<close>

lemma do_event_forward_begin:
  "ev_type (arena s ! p) = PET_begin \<Longrightarrow> ev_begin_event (arena s ! p) = p \<Longrightarrow>
   p \<notin> set (active s) \<Longrightarrow>
   do_event_forward p is_initial (s, na) =
     (if p \<in> set na then (assert_failure s, na)
      else (s, insort_key (address_of s) p na))"
  by (simp add: do_event_forward_def pset_insert_def Let_def)

lemma do_event_forward_end_new:
  "ev_type (arena s ! p) = PET_end \<Longrightarrow> ev_begin_event (arena s ! p) \<in> set na \<Longrightarrow>
   do_event_forward p is_initial (s, na) =
     (enqueue_event (ev_n (arena s ! p)) ET_instant is_initial 0 s,
      removeAll (ev_begin_event (arena s ! p)) na)"
  by (simp add: do_event_forward_def pset_erase_def Let_def)

lemma do_event_forward_end_old:
  "ev_type (arena s ! p) = PET_end \<Longrightarrow> ev_begin_event (arena s ! p) \<notin> set na \<Longrightarrow>
   active s = [] \<Longrightarrow>
   do_event_forward p is_initial (s, na) =
     (assert_failure (enqueue_event (ev_n (arena s ! p)) ET_finalize is_initial 0 s), na)"
proof -
  assume a: "ev_type (arena s ! p) = PET_end" "ev_begin_event (arena s ! p) \<notin> set na"
    "active s = []"
  have e: "s\<lparr>active := []\<rparr> = s"
    using a(3) by (cases s) simp
  show ?thesis
    using a by (simp add: do_event_forward_def pset_erase_def Let_def e)
qed

lemma do_event_forward_instant:
  "ev_type (arena s ! p) = PET_instant \<Longrightarrow>
   snd (do_event_forward p is_initial (s, na)) = na
   \<and> (fst (do_event_forward p is_initial (s, na)) = assert_failure s
      \<or> fst (do_event_forward p is_initial (s, na))
          = enqueue_event (ev_n (arena s ! p)) ET_instant is_initial 0 s)"
  by (simp add: do_event_forward_def Let_def)

text \<open>Positions in a list sorted by a key.\<close>

lemma sorted_key_before:
  assumes "sorted (map f E)" and "i < length E" and "q \<in> set E" and "f q < f (E ! i)"
  shows "q \<in> set (take i E)"
proof -
  obtain j where j: "j < length E" "E ! j = q"
    using assms(3) by (auto simp: in_set_conv_nth)
  have "j < i"
  proof (rule ccontr)
    assume "\<not> j < i"
    then have "i \<le> j" by simp
    then have "f (E ! i) \<le> f (E ! j)"
      using assms(1) j(1) sorted_nth_mono [of "map f E" i j] assms(2) by simp
    then show False using assms(4) j(2) by simp
  qed
  then show ?thesis
    using j by (auto simp: in_set_conv_nth)
qed

lemma sorted_key_upto:
  assumes "sorted (map f E)" and "i < length E" and "q \<in> set (take (Suc i) E)"
  shows "f q \<le> f (E ! i)"
proof -
  obtain j where j: "j < Suc i" "j < length E" "E ! j = q"
    using assms(3) by (auto simp: in_set_conv_nth)
  then have "f (E ! j) \<le> f (E ! i)"
    using assms(1,2) sorted_nth_mono [of "map f E" j i] by simp
  then show ?thesis using j(3) by simp
qed

lemma take_Suc_set:
  "i < length E \<Longrightarrow> set (take (Suc i) E) = insert (E ! i) (set (take i E))"
  by (simp add: take_Suc_conv_app_nth)

lemma distinct_nth_not_taken:
  "distinct E \<Longrightarrow> i < length E \<Longrightarrow> E ! i \<notin> set (take i E)"
  by (metis distinct_take id_take_nth_drop not_distinct_conv_prefix)

lemma event_ok_beginD:
  assumes "event_ok ds A p" and "ev_type (A ! p) = PET_begin"
  shows "ev_begin_event (A ! p) = p" and "Suc p < length A"
    and "ev_type (A ! Suc p) = PET_end" and "ev_n (A ! Suc p) = ev_n (A ! p)"
    and "\<exists>d. action_duration (ds ! ev_n (A ! p)) = Some d \<and> d \<noteq> 0
             \<and> ev_time (A ! Suc p) = ev_time (A ! p) + d"
  using assms by (auto simp: event_ok_def split: option.splits)

lemma event_ok_endD:
  assumes "event_ok ds A p" and "ev_type (A ! p) = PET_end"
  shows "0 < p" and "ev_begin_event (A ! p) = p - 1"
    and "ev_type (A ! (p - 1)) = PET_begin" and "ev_n (A ! (p - 1)) = ev_n (A ! p)"
  using assms by (auto simp: event_ok_def)

lemma skip_static_suppressed:
  assumes "skip_static ds A E k t" and "same_defs ds (defs s)"
  shows "\<not> delivers s k ET_instant True"
proof -
  have k: "k < length ds" and o: "action_open_ended (ds ! k) = Some False"
    using assms(1) by (simp_all add: skip_static_def)
  have "action_open_ended (defs s ! k) = Some False"
    using same_defs_action(2) [OF assms(2) k] o by simp
  then show ?thesis
    by (simp add: delivers_def)
qed

lemma skip_inv_step:
  assumes st: "skip_static ds A E k t" and inv: "skip_inv ds A E k (s, na)"
    and pend: "forward_pending t s"
    and d: "do_event_forward (events s ! next_event_index s) True (s, na) = (s1, na1)"
  shows "skip_inv ds A E k (s1\<lparr>next_event_index := next_event_index s1 + 1\<rparr>, na1)
         \<and> untouched k s s1"
proof -
  let ?i = "next_event_index s"
  let ?p = "E ! ?i"
  let ?T = "set (take ?i E)"
  let ?f = "\<lambda>p. ev_time (A ! p)"
  have ar: "arena s = A" and ev: "events s = E" and sd: "same_defs ds (defs s)"
    and ac: "active s = []" and sub: "set na \<subseteq> {..<length A}"
    and cl: "\<And>q. q < length A \<Longrightarrow> ev_n (A ! q) = k \<Longrightarrow>
               (q \<in> set na) = (ev_type (A ! q) = PET_begin \<and> q \<in> ?T \<and> Suc q \<notin> ?T)"
    using inv by (simp_all add: skip_inv_def)
  have ok: "\<And>p. p < length A \<Longrightarrow> event_ok ds A p"
    and dist: "distinct E" and setE: "set E = {..<length A}"
    and srt: "sorted (map ?f E)"
    and dur: "case action_duration (ds ! k) of None \<Rightarrow> False | Some dur \<Rightarrow> 0 \<le> dur"
    using st by (simp_all add: skip_static_def)
  have i: "?i < length E" and tp: "?f ?p \<le> t"
    using pend ar ev by (simp_all add: forward_pending_def)
  have p: "?p < length A"
    using i setE nth_mem [OF i] by auto
  have pE: "?p \<in> set E"
    using i by simp
  have pT: "?p \<notin> ?T"
    by (rule distinct_nth_not_taken [OF dist i])
  have T': "set (take (Suc ?i) E) = insert ?p ?T"
    by (rule take_Suc_set [OF i])
  have sup: "\<not> delivers s k ET_instant True"
    by (rule skip_static_suppressed [OF st sd])
  have ss: "same_schedule s s1"
    using same_schedule_do_event_forward [of s ?p True na] d ev by simp
  note d' = d [unfolded ev]
  have pos: "0 < dd" if "q < length A" "ev_n (A ! q) = k"
    "action_duration (ds ! ev_n (A ! q)) = Some dd" "dd \<noteq> 0" for q dd
    using dur that by simp
  have main: "active s1 = [] \<and> untouched k s s1 \<and> set na1 \<subseteq> {..<length A}
       \<and> (\<forall>q<length A. ev_n (A ! q) = k \<longrightarrow>
             (q \<in> set na1) =
               (ev_type (A ! q) = PET_begin \<and> q \<in> insert ?p ?T \<and> Suc q \<notin> insert ?p ?T))"
  proof (cases "ev_type (A ! ?p)")
    case PET_begin
    note b = event_ok_beginD [OF ok [OF p] PET_begin]
    have r: "(s1, na1) = (if ?p \<in> set na then (assert_failure s, na)
        else (s, insort_key (address_of s) ?p na))"
      using do_event_forward_begin [of s ?p True na] PET_begin b(1) ac ar d' by simp
    have s1: "s1 = s \<or> s1 = assert_failure s" and n1: "set na1 = insert ?p (set na)"
      using r by (auto simp: set_insort_key split: if_splits)
    have a1: "active s1 = []" "untouched k s s1"
      using s1 ac by auto
    have c: "(q \<in> set na1) =
               (ev_type (A ! q) = PET_begin \<and> q \<in> insert ?p ?T \<and> Suc q \<notin> insert ?p ?T)"
      if q: "q < length A" "ev_n (A ! q) = k" for q
    proof (cases "q = ?p")
      case True
      obtain dd where dd: "action_duration (ds ! ev_n (A ! ?p)) = Some dd" "dd \<noteq> 0"
        "?f (Suc ?p) = ?f ?p + dd"
        using b(5) by blast
      have "0 < dd"
        using pos [OF p _ dd(1,2)] q True by simp
      then have lt: "?f ?p < ?f (Suc ?p)"
        using dd(3) by simp
      have "Suc ?p \<notin> set (take (Suc ?i) E)"
        using sorted_key_upto [OF srt i, of "Suc ?p"] lt by auto
      then have "Suc ?p \<notin> insert ?p ?T"
        using T' by simp
      then show ?thesis
        using True n1 PET_begin by simp
    next
      case False
      have "Suc q \<noteq> ?p" if "ev_type (A ! q) = PET_begin"
        using event_ok_beginD(3) [OF ok [OF q(1)] that] PET_begin by auto
      then show ?thesis
        using False n1 cl [OF q] by auto
    qed
    show ?thesis
      using a1 n1 sub p c by auto
  next
    case PET_end
    note e = event_ok_endD [OF ok [OF p] PET_end]
    let ?q0 = "?p - 1"
    have q0: "?q0 < length A" "Suc ?q0 = ?p"
      using p e(1) by simp_all
    have be: "ev_begin_event (arena s ! ?p) = ?q0" "ev_type (arena s ! ?p) = PET_end"
      using e(2) PET_end ar by simp_all
    show ?thesis
    proof (cases "ev_n (A ! ?p) = k")
      case True
      have nq0: "ev_n (A ! ?q0) = k"
        using e(4) True by simp
      obtain dd where dd: "action_duration (ds ! ev_n (A ! ?q0)) = Some dd" "dd \<noteq> 0"
        "?f (Suc ?q0) = ?f ?q0 + dd"
        using event_ok_beginD(5) [OF ok [OF q0(1)] e(3)] by blast
      have "0 < dd"
        using pos [OF q0(1) nq0 dd(1,2)] .
      then have lt: "?f ?q0 < ?f ?p"
        using dd(3) q0(2) by simp
      have "?q0 \<in> set E"
        using q0(1) setE by simp
      then have "?q0 \<in> ?T"
        using sorted_key_before [OF srt i _ lt] by simp
      then have in_na: "?q0 \<in> set na"
        using cl [OF q0(1) nq0] e(3) q0(2) pT by simp
      have r: "(s1, na1) = (enqueue_event (ev_n (arena s ! ?p)) ET_instant True 0 s,
                            removeAll ?q0 na)"
        using do_event_forward_end_new [of s ?p na True] be in_na d' by simp
      have s1: "s1 = enqueue_event k ET_instant True 0 s" and n1: "set na1 = set na - {?q0}"
        using r True ar by auto
      have a1: "active s1 = []" "untouched k s s1"
        using s1 ac untouched_enqueue_event [of k k s ET_instant True 0] sup by simp_all
      have c: "(q \<in> set na1) =
                 (ev_type (A ! q) = PET_begin \<and> q \<in> insert ?p ?T \<and> Suc q \<notin> insert ?p ?T)"
        if q: "q < length A" "ev_n (A ! q) = k" for q
      proof (cases "q = ?q0")
        case True
        then show ?thesis using n1 q0(2) by simp
      next
        case False
        have "Suc q \<noteq> ?p"
          using False q0(2) by auto
        moreover have "q \<noteq> ?p" if "ev_type (A ! q) = PET_begin"
          using that PET_end by auto
        ultimately show ?thesis
          using False n1 cl [OF q] by auto
      qed
      show ?thesis
        using a1 n1 sub c by auto
    next
      case False
      have nq0: "ev_n (A ! ?q0) \<noteq> k"
        using e(4) False by simp
      have r: "(s1, na1) = (enqueue_event (ev_n (arena s ! ?p)) ET_instant True 0 s,
                            removeAll ?q0 na)
               \<or> (s1, na1) = (assert_failure
                     (enqueue_event (ev_n (arena s ! ?p)) ET_finalize True 0 s), na)
                  \<and> ?q0 \<notin> set na"
      proof (cases "?q0 \<in> set na")
        case True
        then show ?thesis
          using do_event_forward_end_new [of s ?p na True] be d' by simp
      next
        case F: False
        then show ?thesis
          using do_event_forward_end_old [of s ?p na True] be ac d' by simp
      qed
      have n1: "set na1 = set na - {?q0}"
        using r by auto
      have u: "untouched k s (enqueue_event (ev_n (arena s ! ?p)) et True 0 s)" for et
        using untouched_enqueue_event [of "ev_n (arena s ! ?p)" k s et True 0] False ar by simp
      have a1: "active s1 = []" "untouched k s s1"
        using r ac u by auto
      have c: "(q \<in> set na1) =
                 (ev_type (A ! q) = PET_begin \<and> q \<in> insert ?p ?T \<and> Suc q \<notin> insert ?p ?T)"
        if q: "q < length A" "ev_n (A ! q) = k" for q
      proof -
        have 1: "q \<noteq> ?q0" using q(2) nq0 by auto
        then have 2: "Suc q \<noteq> ?p" using q0(2) by auto
        have 3: "q \<noteq> ?p" using q(2) False by auto
        show ?thesis
          using 1 2 3 n1 cl [OF q] by auto
      qed
      show ?thesis
        using a1 n1 sub c by auto
    qed
  next
    case PET_instant
    have r: "na1 = na" "s1 = assert_failure s
               \<or> s1 = enqueue_event (ev_n (arena s ! ?p)) ET_instant True 0 s"
      using do_event_forward_instant [of s ?p True na] PET_instant ar d' by auto
    have u: "untouched k s (enqueue_event (ev_n (arena s ! ?p)) ET_instant True 0 s)"
      using untouched_enqueue_event [of "ev_n (arena s ! ?p)" k s ET_instant True 0] sup
      by (cases "ev_n (arena s ! ?p) = k") simp_all
    have a1: "active s1 = []" "untouched k s s1"
      using r(2) ac u by auto
    have c: "(q \<in> set na1) =
               (ev_type (A ! q) = PET_begin \<and> q \<in> insert ?p ?T \<and> Suc q \<notin> insert ?p ?T)"
      if q: "q < length A" "ev_n (A ! q) = k" for q
    proof -
      have 1: "q \<noteq> ?p" if "ev_type (A ! q) = PET_begin"
        using that PET_instant by auto
      have 2: "Suc q \<noteq> ?p" if "ev_type (A ! q) = PET_begin"
        using event_ok_beginD(3) [OF ok [OF q(1)] that] PET_instant by auto
      show ?thesis
        using 1 2 r(1) cl [OF q] by auto
    qed
    show ?thesis
      using a1 r(1) sub c by auto
  qed
  have "skip_inv ds A E k (s1\<lparr>next_event_index := next_event_index s1 + 1\<rparr>, na1)"
    using main ss ar ev sd i T' by (simp add: skip_inv_def same_schedule_def)
  then show ?thesis
    using main by simp
qed

lemma skip_inv_forward_events:
  assumes "skip_static ds A E k t" and "skip_inv ds A E k x"
  shows "skip_inv ds A E k (forward_events t True x)
         \<and> untouched k (fst x) (fst (forward_events t True x))
         \<and> \<not> forward_pending t (fst (forward_events t True x))"
  using assms(2)
proof (induction x rule: forward_events_induct [of t _ True])
  case (stop s na)
  then show ?case by (simp add: forward_events_stop)
next
  case (step s na s1 na1)
  let ?x1 = "(s1\<lparr>next_event_index := next_event_index s1 + 1\<rparr>, na1)"
  have 1: "skip_inv ds A E k ?x1" and u: "untouched k s s1"
    using skip_inv_step [OF assms(1) step.prems step.hyps(1,2)] by simp_all
  have e: "forward_events t True (s, na) = forward_events t True ?x1"
    by (rule forward_events_step [OF step.hyps(1,2)])
  have "untouched k s (fst (forward_events t True ?x1))"
    using step.IH [OF 1] untouched_trans [OF u] by simp
  then show ?case
    using step.IH [OF 1] by (simp add: e)
qed

lemma skip_inv_exit:
  assumes st: "skip_static ds A E k t" and inv: "skip_inv ds A E k (s, na)"
    and np: "\<not> forward_pending t s"
  shows "\<forall>q\<in>set na. ev_n (arena s ! q) \<noteq> k"
proof
  fix q assume qn: "q \<in> set na"
  let ?i = "next_event_index s"
  let ?f = "\<lambda>p. ev_time (A ! p)"
  have ar: "arena s = A" and ev: "events s = E"
    and sub: "set na \<subseteq> {..<length A}"
    and cl: "\<And>q. q < length A \<Longrightarrow> ev_n (A ! q) = k \<Longrightarrow>
               (q \<in> set na) = (ev_type (A ! q) = PET_begin \<and> q \<in> set (take ?i E)
                                 \<and> Suc q \<notin> set (take ?i E))"
    using inv by (simp_all add: skip_inv_def)
  have ok: "\<And>p. p < length A \<Longrightarrow> event_ok ds A p"
    and setE: "set E = {..<length A}" and srt: "sorted (map ?f E)"
    and tk: "\<And>p. p < length A \<Longrightarrow> ev_n (A ! p) = k \<Longrightarrow> ?f p \<le> t"
    using st by (simp_all add: skip_static_def)
  have q: "q < length A" using qn sub by auto
  show "ev_n (arena s ! q) \<noteq> k"
  proof
    assume "ev_n (arena s ! q) = k"
    then have nk: "ev_n (A ! q) = k" using ar by simp
    have b: "ev_type (A ! q) = PET_begin" and nt: "Suc q \<notin> set (take ?i E)"
      using cl [OF q nk] qn by simp_all
    note bd = event_ok_beginD [OF ok [OF q] b]
    have le: "?f (Suc q) \<le> t"
      using tk [OF bd(2)] bd(4) nk by simp
    obtain j where j: "j < length E" "E ! j = Suc q"
      using bd(2) setE by (metis in_set_conv_nth lessThan_iff)
    have ij: "?i \<le> j"
    proof (rule ccontr)
      assume "\<not> ?i \<le> j"
      then have "Suc q \<in> set (take ?i E)"
        using j by (auto simp: in_set_conv_nth)
      then show False using nt by simp
    qed
    then have "?f (E ! ?i) \<le> ?f (E ! j)"
      using srt j(1) sorted_nth_mono [of "map ?f E" ?i j] by simp
    then have "forward_pending t s"
      using ij j le ar ev by (simp add: forward_pending_def)
    then show False using np by simp
  qed
qed

lemma recompute_keeps_callbacks:
  "invoked (recompute s) = invoked s \<and> event_queue (recompute s) = event_queue s"
proof -
  let ?c = "clear_events (s\<lparr>dirty := False\<rparr>)"
  obtain n le s2 where c: "recompute_loop 0 0 0 0 0 ?c = (n, le, s2)"
    by (cases "recompute_loop 0 0 0 0 0 ?c") auto
  have "same_playback ?c s2"
    using same_playback_recompute_loop [of ?c 0 0 0 0 0] c by simp
  then have "event_queue s2 = event_queue s" "invoked s2 = invoked s"
    by (simp_all add: same_playback_def clear_events_def)
  then show ?thesis
    by (simp add: recompute_def do_recompute_parts [OF c])
qed

text \<open>
  The actions that \<^verbatim>\<open>initialize\<close> skips. Let the definition list be built by the append
  API and the compiled events belong to it. An action that is not open-ended, whose
  duration is not negative and whose compiled events all lie at or before \<open>t\<close>, gets no
  callback from \<^verbatim>\<open>initialize t\<close>: the callbacks invoked for it and those queued for it
  are the ones from before the call.
\<close>

lemma skipped_action_no_callback:
  assumes "defs_ok (defs s)" and "up_to_date s"
    and "k < length (defs s)" and "action_open_ended (defs s ! k) = Some False"
    and "action_duration (defs s ! k) = Some dur" and "0 \<le> dur"
    and "\<forall>p<length (arena (do_recompute s)).
           ev_n (arena (do_recompute s) ! p) = k \<longrightarrow> ev_time (arena (do_recompute s) ! p) \<le> t"
  shows "filter (\<lambda>e. entry_n e = k) (invoked (initialize t s))
           = filter (\<lambda>e. entry_n e = k) (invoked s)
         \<and> filter (\<lambda>e. entry_n e = k) (event_queue (initialize t s))
             = filter (\<lambda>e. entry_n e = k) (event_queue s)"
proof -
  let ?ds = "defs s"
  let ?A = "arena (do_recompute s)"
  let ?E = "events (do_recompute s)"
  let ?f = "\<lambda>p. ev_time (?A ! p)"
  let ?r = "recompute s"
  let ?s2 = "?r\<lparr>next_event_index := 0, active := []\<rparr>"
  note c = do_recompute_compiled [OF assms(1)]
  have rA: "arena ?r = ?A" and rE: "events ?r = ?E"
    using assms(2) by (auto simp: up_to_date_def recompute_def)
  have rD: "same_defs ?ds (defs ?r)"
    using c by (simp add: recompute_def)
  have ok: "\<forall>p<length ?A. event_ok ?ds ?A p"
  proof -
    have "compiled_upto ?ds ?A (length ?ds)"
      using c by (elim conjE)
    then show ?thesis
      by (simp add: compiled_upto_def)
  qed
  have e: "?E = sort_key ?f [0..<length ?A]"
    using do_recompute_order [of s] by (elim conjE)
  have d: "distinct ?E"
    by (subst e) simp
  have se: "set ?E = {..<length ?A}"
    by (subst e) (simp add: atLeast0LessThan)
  have so: "sorted (map ?f ?E)"
    by (subst e) (rule sorted_sort_key)
  have st: "skip_static ?ds ?A ?E k t"
    using ok d se so assms(3-7) by (simp add: skip_static_def)
  have inv: "skip_inv ?ds ?A ?E k (?s2, [])"
    using rA rE rD by (simp add: skip_inv_def)
  obtain s3 na where f: "forward_events t True (?s2, []) = (s3, na)"
    by (cases "forward_events t True (?s2, [])")
  from skip_inv_forward_events [OF st inv] f
  have i3: "skip_inv ?ds ?A ?E k (s3, na)" and u3: "untouched k ?s2 s3"
    and np: "\<not> forward_pending t s3"
    by simp_all
  have nk: "\<forall>q\<in>set na. ev_n (arena s3 ! q) \<noteq> k"
    by (rule skip_inv_exit [OF st i3 np])
  have a3: "active s3 = []"
    using i3 by (simp add: skip_inv_def)
  have u4: "untouched k s3 (finish_events_forward t na s3)"
    by (rule untouched_finish_events_forward [OF a3 nk])
  have u0: "untouched k s ?s2"
    using recompute_keeps_callbacks [of s] by (simp add: untouched_def)
  have "untouched k s (finish_events_forward t na s3)"
    using untouched_trans [OF u0 untouched_trans [OF u3 u4]] .
  then have "untouched k s (initialize t s)"
    using f by (simp add: initialize_def Let_def)
  then show ?thesis
    by (simp add: untouched_def)
qed

lemma skipped_action_no_callback_example:
  "defs_ok (defs scenario_closed) \<and> up_to_date scenario_closed
   \<and> action_open_ended (defs scenario_closed ! 0) = Some False
   \<and> action_duration (defs scenario_closed ! 0) = Some 2
   \<and> arena (do_recompute scenario_closed)
       = [PlaybackEvent 0 0 PET_begin 0, PlaybackEvent 2 0 PET_end 0]
   \<and> filter (\<lambda>e. entry_n e = 0) (invoked (initialize 5 scenario_closed)) = []
   \<and> filter (\<lambda>e. entry_n e = 0) (event_queue (initialize 5 scenario_closed)) = []"
proof -
  have h1: "defs_ok (defs scenario_closed)"
    by code_simp
  have h2: "up_to_date scenario_closed"
    by code_simp
  have h3: "0 < length (defs scenario_closed)"
    by code_simp
  have h4: "action_open_ended (defs scenario_closed ! 0) = Some False"
    by code_simp
  have h5: "action_duration (defs scenario_closed ! 0) = Some 2"
    by code_simp
  have a: "arena (do_recompute scenario_closed)
           = [PlaybackEvent 0 0 PET_begin 0, PlaybackEvent 2 0 PET_end 0]"
    by code_simp
  have h7: "\<forall>p<length (arena (do_recompute scenario_closed)).
              ev_n (arena (do_recompute scenario_closed) ! p) = 0 \<longrightarrow>
              ev_time (arena (do_recompute scenario_closed) ! p) \<le> 5"
    by (simp add: a nth_Cons split: nat.split)
  have i: "invoked scenario_closed = []" "event_queue scenario_closed = []"
    by code_simp+
  show ?thesis
    using skipped_action_no_callback [OF h1 h2 h3 h4 h5 _ h7] h1 h2 h4 h5 a i by simp
qed

text \<open>
  Claim C3. The code breaks the claim at a negative duration. The external action of
  \<open>scenario_negative\<close> is not open-ended and has the duration -1; it begins at 0 and ends
  at -1, both at or before the time 0. \<^verbatim>\<open>initialize 0\<close> scans the End event first, finds
  the Begin event in neither set, queues a Finalize callback, for which \<^verbatim>\<open>enqueue_event\<close>
  has no suppression, and fails \<^verbatim>\<open>nassertv(erase_count == 1)\<close> of \<^verbatim>\<open>do_event_forward\<close>;
  the Begin event then brings an Initialize callback. The suppression that
  \<^verbatim>\<open>enqueue_event\<close> has for an action skipped completely past is never reached.
\<close>

theorem skipped_action_negative_duration:
  "built scenario_negative
   \<and> action_open_ended (defs scenario_negative ! 0) = Some False
   \<and> action_duration (defs scenario_negative ! 0) = Some (- 1)
   \<and> arena (initialize 0 scenario_negative)
       = [PlaybackEvent 0 0 PET_begin 0, PlaybackEvent (- 1) 0 PET_end 0]
   \<and> invoked scenario_negative = [] \<and> event_queue scenario_negative = []
   \<and> event_queue (initialize 0 scenario_negative)
       = [EventQueueEntry 0 ET_finalize 0, EventQueueEntry 0 ET_initialize 0]
   \<and> assert_failures scenario_negative = 0
   \<and> assert_failures (initialize 0 scenario_negative) = 1"
  by code_simp

section \<open>The states that the operations reach\<close>

text \<open>
  The compiler reads of the state the definition list, up to the begin times that it
  writes itself; compiling twice gives the same events.
\<close>

lemma same_input_get_begin_time:
  assumes "same_defs ds ds'" and "n < length ds"
  shows "get_begin_time (ds' ! n) lb pb pe = get_begin_time (ds ! n) lb pb pe"
  using same_defs_fields(5,6) [OF assms]
  by (simp add: get_begin_time_def split: RelativeStart.splits)

lemma same_defs_sym: "same_defs a b \<Longrightarrow> same_defs b a"
  by (simp add: same_defs_def)

lemma same_input_set_actual_begin_time:
  "same_input s t \<Longrightarrow>
   same_input (set_actual_begin_time n x s) (set_actual_begin_time m y t)"
  unfolding same_input_def
  using same_defs_trans [OF same_defs_sym [OF same_defs_set_actual_begin_time [of s n x]]
      same_defs_trans [OF _ same_defs_set_actual_begin_time [of t m y]]]
  by (simp add: set_actual_begin_time_def)

lemma same_input_push_events:
  "same_input s t \<Longrightarrow> same_input (push_events b e n s) (push_events b e n t)"
  by (simp add: same_input_def push_events_def new_PlaybackEvent_def Let_def)

lemma recompute_loop_same_input:
  assumes "same_input s t"
  shows "fst (recompute_loop n lb pb pe le t) = fst (recompute_loop n lb pb pe le s)
         \<and> fst (snd (recompute_loop n lb pb pe le t)) = fst (snd (recompute_loop n lb pb pe le s))
         \<and> same_input (snd (snd (recompute_loop n lb pb pe le s)))
              (snd (snd (recompute_loop n lb pb pe le t)))"
  using assms
proof (induction n lb pb pe le s arbitrary: t rule: recompute_loop_induct)
  case (stop n lb pb pe le s)
  have sd: "same_defs (defs s) (defs t)"
    using stop.prems by (simp add: same_input_def)
  have l: "length (defs t) = length (defs s)"
    using same_defs_length [OF sd] .
  have "\<not> (n < length (defs t) \<and> def_type (defs t ! n) \<noteq> DT_pop_level)"
    using stop.hyps l same_defs_fields(1) [OF sd, of n] by auto
  then have rt: "recompute_loop n lb pb pe le t =
      (n, le, if n < length (defs t) then set_actual_begin_time n le t else t)"
    by (rule recompute_loop_stop)
  show ?case
    using stop.prems same_input_set_actual_begin_time [OF stop.prems, of n le n le] l
    by (simp add: rt recompute_loop_stop [OF stop.hyps])
next
  case (null n lb pb pe le s)
  have sd: "same_defs (defs s) (defs t)"
    using null.prems by (simp add: same_input_def)
  have l: "length (defs t) = length (defs s)"
    using same_defs_length [OF sd] .
  have "n < length (defs t)" "def_type (defs t ! n) = DT_c_interval"
    "c_interval (defs t ! n) = None"
    using null.hyps l same_defs_fields(1,2) [OF sd, of n] by simp_all
  then have rt: "recompute_loop n lb pb pe le t = (length (defs t), le, assert_failure t)"
    by (rule recompute_loop_null)
  show ?case
    using null.prems l
    by (simp add: rt recompute_loop_null [OF null.hyps] same_input_def assert_failure_def)
next
  case (action n lb pb pe le s dur bt)
  have sd: "same_defs (defs s) (defs t)"
    using action.prems by (simp add: same_input_def)
  have l: "length (defs t) = length (defs s)"
    using same_defs_length [OF sd] .
  let ?s1 = "push_events bt (bt + dur) n (set_actual_begin_time n bt s)"
  let ?t1 = "push_events bt (bt + dur) n (set_actual_begin_time n bt t)"
  have tn: "n < length (defs t)" "action_duration (defs t ! n) = Some dur"
    "bt = get_begin_time (defs t ! n) lb pb pe"
    using action.hyps l same_defs_action(1) [OF sd, of n]
      same_input_get_begin_time [OF sd, of n lb pb pe] by simp_all
  have rt: "recompute_loop n lb pb pe le t
            = recompute_loop (n + 1) lb bt (bt + dur) (max le (bt + dur)) ?t1"
    by (rule recompute_loop_action [OF tn])
  have 1: "same_input ?s1 ?t1"
    using same_input_push_events [OF same_input_set_actual_begin_time [OF action.prems]] .
  show ?case
    using action.IH [OF 1]
    by (simp only: rt recompute_loop_action [OF action.hyps])
next
  case (push n lb pb pe le s bt n1 et s2)
  have sd: "same_defs (defs s) (defs t)"
    using push.prems by (simp add: same_input_def)
  have l: "length (defs t) = length (defs s)"
    using same_defs_length [OF sd] .
  let ?s1 = "set_actual_begin_time n bt s"
  let ?t1 = "set_actual_begin_time n bt t"
  have tn: "n < length (defs t)" "def_type (defs t ! n) = DT_push_level"
    "bt = get_begin_time (defs t ! n) lb pb pe"
    using push.hyps l same_defs_fields(1) [OF sd, of n]
      same_input_get_begin_time [OF sd, of n lb pb pe] by simp_all
  have 1: "same_input ?s1 ?t1"
    by (rule same_input_set_actual_begin_time [OF push.prems])
  obtain m1 ft t2 where it: "recompute_loop (n + 1) bt bt bt bt ?t1 = (m1, ft, t2)"
    by (cases "recompute_loop (n + 1) bt bt bt bt ?t1") auto
  from push.IH(1) [OF 1] it push.hyps(4)
  have i: "m1 = n1" "ft = et" "same_input s2 t2"
    by simp_all
  have rt: "recompute_loop n lb pb pe le t = recompute_loop (n1 + 1) lb bt et (max le et) t2"
    using recompute_loop_push [OF tn it] i(1,2) by simp
  show ?case
    using push.IH(2) [OF i(3)]
    by (simp only: rt recompute_loop_push [OF push.hyps])
qed

lemma do_recompute_same_defs:
  assumes "same_defs (defs s) (defs t)"
  shows "arena (do_recompute t) = arena (do_recompute s)
         \<and> events (do_recompute t) = events (do_recompute s)
         \<and> same_defs (defs s) (defs (do_recompute t))"
proof -
  let ?c = "clear_events (s\<lparr>dirty := False\<rparr>)"
  let ?d = "clear_events (t\<lparr>dirty := False\<rparr>)"
  obtain n le s2 where r: "recompute_loop 0 0 0 0 0 ?c = (n, le, s2)"
    by (cases "recompute_loop 0 0 0 0 0 ?c") auto
  obtain m lf t2 where q: "recompute_loop 0 0 0 0 0 ?d = (m, lf, t2)"
    by (cases "recompute_loop 0 0 0 0 0 ?d") auto
  have "same_input ?c ?d"
    using assms by (simp add: same_input_def clear_events_def)
  from recompute_loop_same_input [OF this, of 0 0 0 0 0] r q
  have e: "m = n" "lf = le" "same_input s2 t2"
    by simp_all
  have "same_defs (defs s) (defs s2)"
    using same_defs_recompute_loop [of ?c 0 0 0 0 0] r by (simp add: clear_events_def)
  then have "same_defs (defs s) (defs t2)"
    using e(3) same_defs_trans by (auto simp: same_input_def)
  then show ?thesis
    using e by (simp add: do_recompute_parts [OF r] do_recompute_parts [OF q] same_input_def)
qed

lemma same_compiled_refl [simp]: "same_compiled s s"
  by (simp add: same_compiled_def)

lemma same_compiled_trans:
  "same_compiled s s1 \<Longrightarrow> same_compiled s1 s2 \<Longrightarrow> same_compiled s s2"
  by (simp add: same_compiled_def)

lemma same_compiled_update [simp]:
  "same_compiled s (s'\<lparr>next_event_index := i\<rparr>) = same_compiled s s'"
  "same_compiled s (s'\<lparr>active := a\<rparr>) = same_compiled s s'"
  "same_compiled s (s'\<lparr>curr_t := c\<rparr>) = same_compiled s s'"
  by (simp_all add: same_compiled_def)

lemma same_compiled_schedule: "same_schedule s s' \<Longrightarrow> same_compiled s s'"
  by (simp add: same_compiled_def same_schedule_def)

lemma same_compiled_scanned: "scanned s s' \<Longrightarrow> same_compiled s s'"
  by (simp add: same_compiled_def scanned_def same_schedule_def)

lemma same_compiled_finish:
  "same_compiled s (finish_events_forward now na s)"
  "same_compiled s (finish_events_reverse now na s)"
  using finish_events_forward_result [of s now na] finish_events_reverse_result [of s now na]
    same_compiled_schedule by blast+

lemma same_compiled_forward_events:
  "forward_events now i (s, na) = (s1, na1) \<Longrightarrow> same_compiled s s1"
  using scanned_forward_events [of "(s, na)" now i] same_compiled_scanned by simp

lemma same_compiled_reverse_events:
  "reverse_events now i (s, na) = (s1, na1) \<Longrightarrow> same_compiled s s1"
  using scanned_reverse_events [of "(s, na)" now i] same_compiled_scanned by simp

lemma same_compiled_finalize_events:
  "finalize_events (s, na) = (s1, na1) \<Longrightarrow> same_compiled s s1"
  using scanned_finalize_events [of "(s, na)"] same_compiled_scanned by simp

lemma same_compiled_reverse_finalize_events:
  "reverse_finalize_events (s, na) = (s1, na1) \<Longrightarrow> same_compiled s s1"
  using scanned_reverse_finalize_events [of "(s, na)"] same_compiled_scanned by simp

lemma same_compiled_instant_events:
  "same_compiled s (instant_events event_type xs s)"
  using instant_events_result [of s event_type xs] same_compiled_schedule by blast

text \<open>The nesting and the handles do not depend on the compiled begin times.\<close>

lemma nesting_delta_begin_time [simp]:
  "nesting_delta (d\<lparr>actual_begin_time := x\<rparr>) = nesting_delta d"
  by (simp add: nesting_delta_def)

lemma pops_matched_map:
  "pops_matched (map (\<lambda>d. d\<lparr>actual_begin_time := 0\<rparr>) ds) d = pops_matched ds d"
  by (induction ds arbitrary: d) simp_all

lemma nesting_depth_map:
  "nesting_depth (map (\<lambda>d. d\<lparr>actual_begin_time := 0\<rparr>) ds) = nesting_depth ds"
  by (simp add: nesting_depth_def comp_def)

lemma handles_ok_map:
  "handles_ok (map (\<lambda>d. d\<lparr>actual_begin_time := 0\<rparr>) ds) = handles_ok ds"
  by (simp add: handles_ok_def list_all_iff)

lemma same_defs_ok:
  assumes "same_defs ds ds'"
  shows "defs_ok ds' = defs_ok ds" and "nesting_depth ds' = nesting_depth ds"
proof -
  have m: "map (\<lambda>d. d\<lparr>actual_begin_time := 0\<rparr>) ds' = map (\<lambda>d. d\<lparr>actual_begin_time := 0\<rparr>) ds"
    using assms by (simp add: same_defs_def)
  show "defs_ok ds' = defs_ok ds"
    using pops_matched_map [of ds' 0] pops_matched_map [of ds 0]
      handles_ok_map [of ds'] handles_ok_map [of ds]
    by (simp add: defs_ok_def m)
  show "nesting_depth ds' = nesting_depth ds"
    using nesting_depth_map [of ds'] nesting_depth_map [of ds] by (simp add: m)
qed

lemma pops_matched_append:
  "pops_matched (xs @ ys) d = (pops_matched xs d \<and> pops_matched ys (d + nesting_depth xs))"
  by (induction xs arbitrary: d) (auto simp: add.assoc)

lemma nesting_depth_append [simp]:
  "nesting_depth (xs @ ys) = nesting_depth xs + nesting_depth ys"
  by (simp add: nesting_depth_def)

lemma handles_ok_append [simp]:
  "handles_ok (xs @ ys) = (handles_ok xs \<and> handles_ok ys)"
  by (simp add: handles_ok_def)

text \<open>The invariant holds of a new scheduler and is kept by every operation.\<close>

lemma up_to_date_same_compiled:
  assumes "up_to_date s" and "same_compiled s s'"
  shows "up_to_date s'"
proof -
  have "same_defs (defs s) (defs s')"
    using assms(2) by (simp add: same_compiled_def)
  from do_recompute_same_defs [OF this]
  show ?thesis
    using assms by (auto simp: up_to_date_def same_compiled_def)
qed

lemma built_same_compiled:
  assumes "built s" and "same_compiled s s'"
  shows "built s'"
  using assms up_to_date_same_compiled [OF _ assms(2)]
  by (simp add: built_def same_compiled_def)

lemma current_nesting_level_do_recompute [simp]:
  "current_nesting_level (do_recompute s) = current_nesting_level s"
proof -
  let ?c = "clear_events (s\<lparr>dirty := False\<rparr>)"
  obtain n le s2 where r: "recompute_loop 0 0 0 0 0 ?c = (n, le, s2)"
    by (cases "recompute_loop 0 0 0 0 0 ?c") auto
  have "same_playback ?c s2"
    using same_playback_recompute_loop [of ?c 0 0 0 0 0] r by simp
  then show ?thesis
    by (simp add: do_recompute_parts [OF r] same_playback_def clear_events_def)
qed

lemma built_do_recompute:
  assumes "defs_ok (defs s)" and "current_nesting_level s = nesting_depth (defs s)"
  shows "built (do_recompute s)"
proof -
  have sd: "same_defs (defs s) (defs (do_recompute s))"
    using do_recompute_same_defs [of s s] by simp
  have "up_to_date (do_recompute s)"
    using do_recompute_same_defs [OF sd] by (simp add: up_to_date_def)
  then show ?thesis
    using assms same_defs_ok [OF sd] by (simp add: built_def)
qed

lemma built_recompute: "built s \<Longrightarrow> built (recompute s)"
  using built_do_recompute [of s] by (simp add: recompute_def built_def)

lemma do_recompute_no_defs:
  assumes "defs s = []"
  shows "arena (do_recompute s) = []" and "events (do_recompute s) = []"
proof -
  let ?c = "clear_events (s\<lparr>dirty := False\<rparr>)"
  have "recompute_loop 0 0 0 0 0 ?c = (0, 0, ?c)"
    by (rule trans [OF recompute_loop_stop]) (simp_all add: clear_events_def assms)
  from do_recompute_parts [OF this]
  show "arena (do_recompute s) = []" and "events (do_recompute s) = []"
    by (simp_all add: clear_events_def)
qed

lemma built_no_defs:
  assumes "defs s = []" and "arena s = []" and "events s = []"
    and "current_nesting_level s = 0"
  shows "built s"
  using assms do_recompute_no_defs [OF assms(1)]
  by (simp add: built_def defs_ok_def handles_ok_def up_to_date_def)

lemma built_new: "built (CMetaInterval_new heap)"
  by (rule built_no_defs) (simp_all add: CMetaInterval_new_def)

lemma built_assert_failure [simp]: "built (assert_failure s) = built s"
proof -
  have "same_compiled s (assert_failure s)" "same_compiled (assert_failure s) s"
    by (simp_all add: same_compiled_def assert_failure_def)
  then show ?thesis
    using built_same_compiled by blast
qed

lemma nesting_depth_nonneg:
  "pops_matched ds d \<Longrightarrow> 0 \<le> d \<Longrightarrow> 0 \<le> d + nesting_depth ds"
  by (induction ds arbitrary: d) (auto simp: add.assoc [symmetric])

lemma built_appended:
  assumes "built s" and "defs s' = defs s @ [d]"
    and "current_nesting_level s' = current_nesting_level s + nesting_delta d"
    and "dirty s'"
    and "def_type d = DT_c_interval \<longrightarrow> c_interval d \<noteq> None"
    and "0 \<le> current_nesting_level s + nesting_delta d"
  shows "built s'"
proof -
  have 1: "handles_ok (defs s')"
    using assms(1,2,5) by (auto simp: built_def defs_ok_def handles_ok_def)
  have 2: "pops_matched (defs s') 0"
    using assms(1,2,6) by (simp add: built_def defs_ok_def pops_matched_append)
  have 3: "current_nesting_level s' = nesting_depth (defs s')"
    using assms(1,2,3) by (simp add: built_def)
  show ?thesis
    using 1 2 3 assms(4) by (simp add: built_def defs_ok_def up_to_date_def)
qed

lemma built_level_nonneg: "built s \<Longrightarrow> 0 \<le> current_nesting_level s"
  using nesting_depth_nonneg [of "defs s" 0] by (simp add: built_def defs_ok_def)

lemma built_push_level: "built s \<Longrightarrow> built (snd (push_level rel_time' rel_to' s))"
  using built_level_nonneg [of s]
  by (rule_tac built_appended [where s = s and
        d = "IntervalDef_new\<lparr>def_type := DT_push_level, rel_time := rel_time',
               rel_to := rel_to'\<rparr>"])
    (simp_all add: push_level_def Let_def mark_dirty_def nesting_delta_def)

lemma built_add_c_interval:
  "built s \<Longrightarrow> built (snd (add_c_interval c rel_time' rel_to' s))"
proof (cases c)
  case None
  then show "built s \<Longrightarrow> ?thesis"
    by (simp add: add_c_interval_def)
next
  case (Some a)
  show "built s \<Longrightarrow> ?thesis"
    using built_level_nonneg [of s]
    by (rule_tac built_appended [where s = s and
          d = "IntervalDef_new\<lparr>def_type := DT_c_interval, c_interval := Some a,
                 rel_time := rel_time', rel_to := rel_to'\<rparr>"])
      (simp_all add: Some add_c_interval_def Let_def mark_dirty_def nesting_delta_def)
qed

lemma built_add_ext_index:
  "built s \<Longrightarrow> built (snd (add_ext_index i name dur open_ended rel_time' rel_to' s))"
  using built_level_nonneg [of s]
  by (rule_tac built_appended [where s = s and
        d = "IntervalDef_new\<lparr>def_type := DT_ext_index, ext_index := i,
               ext_name := name, ext_duration := dur, ext_open_ended := open_ended,
               rel_time := rel_time', rel_to := rel_to'\<rparr>"])
    (simp_all add: add_ext_index_def Let_def mark_dirty_def nesting_delta_def)

lemma built_pop_level: "built s \<Longrightarrow> built (snd (pop_level s))"
proof (cases "current_nesting_level s > 0")
  case False
  then show "built s \<Longrightarrow> ?thesis"
    by (simp add: pop_level_def)
next
  case True
  show "built s \<Longrightarrow> ?thesis"
    using True
    by (rule_tac built_appended [where s = s and
          d = "IntervalDef_new\<lparr>def_type := DT_pop_level\<rparr>"])
      (simp_all add: pop_level_def Let_def mark_dirty_def nesting_delta_def)
qed

lemma built_clear_intervals:
  assumes "built s" and "snd (remove_parent_links (defs s) (parent_links s))"
  shows "built (clear_intervals s)"
proof (cases "event_queue s = []")
  case False
  then show ?thesis
    using assms(1) by (simp add: clear_intervals_def)
next
  case True
  obtain ps where r: "remove_parent_links (defs s) (parent_links s) = (ps, True)"
    using assms(2) by (cases "remove_parent_links (defs s) (parent_links s)") auto
  show ?thesis
    by (rule built_no_defs) (simp_all add: clear_intervals_def True clear_events_def r)
qed

lemma built_initialize: "built s \<Longrightarrow> built (initialize t s)"
proof -
  assume b: "built s"
  let ?s2 = "(recompute s)\<lparr>next_event_index := 0, active := []\<rparr>"
  obtain s3 na where f: "forward_events t True (?s2, []) = (s3, na)"
    by (cases "forward_events t True (?s2, [])")
  have "same_compiled (recompute s) ?s2" by simp
  then have "same_compiled (recompute s) (finish_events_forward t na s3)"
    using same_compiled_forward_events [OF f] same_compiled_finish(1) [of s3 t na]
      same_compiled_trans by blast
  then have "same_compiled (recompute s) (initialize t s)"
    using f by (simp add: initialize_def Let_def)
  then show ?thesis
    using built_same_compiled [OF built_recompute [OF b]] by simp
qed

lemma built_reverse_initialize: "built s \<Longrightarrow> built (reverse_initialize t s)"
proof -
  assume b: "built s"
  let ?s2 = "(recompute s)\<lparr>next_event_index := length (events (recompute s)), active := []\<rparr>"
  obtain s3 na where f: "reverse_events t True (?s2, []) = (s3, na)"
    by (cases "reverse_events t True (?s2, [])")
  have "same_compiled (recompute s) ?s2" by simp
  then have "same_compiled (recompute s) (finish_events_reverse t na s3)"
    using same_compiled_reverse_events [OF f] same_compiled_finish(2) [of s3 t na]
      same_compiled_trans by blast
  then have "same_compiled (recompute s) (reverse_initialize t s)"
    using f by (simp add: reverse_initialize_def Let_def)
  then show ?thesis
    using built_same_compiled [OF built_recompute [OF b]] by simp
qed

lemma built_instant: "built s \<Longrightarrow> built (instant s)"
proof -
  assume b: "built s"
  let ?s2 = "(recompute s)\<lparr>active := []\<rparr>"
  have "same_compiled (recompute s) ?s2" by simp
  then have "same_compiled (recompute s) (instant_events ET_instant (events ?s2) ?s2)"
    using same_compiled_instant_events same_compiled_trans by blast
  then have "same_compiled (recompute s) (instant s)"
    by (simp add: instant_def Let_def)
  then show ?thesis
    using built_same_compiled [OF built_recompute [OF b]] by simp
qed

lemma built_reverse_instant: "built s \<Longrightarrow> built (reverse_instant s)"
proof -
  assume b: "built s"
  let ?s2 = "(recompute s)\<lparr>active := []\<rparr>"
  have "same_compiled (recompute s) ?s2" by simp
  then have
    "same_compiled (recompute s) (instant_events ET_reverse_instant (rev (events ?s2)) ?s2)"
    using same_compiled_instant_events same_compiled_trans by blast
  then have "same_compiled (recompute s) (reverse_instant s)"
    by (simp add: reverse_instant_def Let_def)
  then show ?thesis
    using built_same_compiled [OF built_recompute [OF b]] by simp
qed

lemma built_step: "built s \<Longrightarrow> built (step t s)"
proof -
  assume b: "built s"
  have "same_compiled s (step t s)"
  proof (cases "forward_pending t s")
    case True
    obtain s1 na where f: "forward_events t False (s, []) = (s1, na)"
      by (cases "forward_events t False (s, [])")
    have "same_compiled s (finish_events_forward t na s1)"
      using same_compiled_forward_events [OF f] same_compiled_finish(1) [of s1 t na]
        same_compiled_trans by blast
    then show ?thesis
      using True f by (simp add: step_def Let_def forward_pending_def)
  next
    case False
    obtain s1 na where f: "reverse_events t False (s, []) = (s1, na)"
      by (cases "reverse_events t False (s, [])")
    have "same_compiled s (finish_events_reverse t na s1)"
      using same_compiled_reverse_events [OF f] same_compiled_finish(2) [of s1 t na]
        same_compiled_trans by blast
    then show ?thesis
      using False f by (auto simp: step_def Let_def forward_pending_def)
  qed
  then show ?thesis
    using built_same_compiled [OF b] by simp
qed

lemma built_finalize: "built s \<Longrightarrow> built (finalize s)"
proof -
  assume b: "built s"
  obtain s1 na where f: "finalize_events (s, []) = (s1, na)"
    by (cases "finalize_events (s, [])")
  let ?s2 = "s1\<lparr>curr_t := get_duration s1\<rparr>"
  have "same_compiled s ?s2"
    using same_compiled_finalize_events [OF f] by simp
  then have "same_compiled s (finish_events_forward (curr_t ?s2) na ?s2)"
    using same_compiled_finish(1) same_compiled_trans by blast
  then have "same_compiled s (finalize s)"
    using f by (simp add: finalize_def Let_def)
  then show ?thesis
    using built_same_compiled [OF b] by simp
qed

lemma built_reverse_finalize: "built s \<Longrightarrow> built (reverse_finalize s)"
proof -
  assume b: "built s"
  obtain s1 na where f: "reverse_finalize_events (s, []) = (s1, na)"
    by (cases "reverse_finalize_events (s, [])")
  have "same_compiled s (finish_events_reverse 0 na s1)"
    using same_compiled_reverse_finalize_events [OF f] same_compiled_finish(2) [of s1 0 na]
      same_compiled_trans by blast
  then have "same_compiled s (reverse_finalize s)"
    using f by (simp add: reverse_finalize_def Let_def)
  then show ?thesis
    using built_same_compiled [OF b] by simp
qed

section \<open>The addresses of the events\<close>

lemma allocated_refl [simp]: "allocated s s"
  by (simp add: allocated_def)

lemma allocated_trans:
  assumes "allocated s s1" and "allocated s1 s2"
  shows "allocated s s2"
proof -
  obtain k where k: "length (arena s1) = length (arena s) + k"
    "addresses s1 = addresses s @ map (allocator s) [0..<k]"
    "allocator s1 = (\<lambda>i. allocator s (i + k))"
    using assms(1) by (auto simp: allocated_def)
  obtain m where m: "length (arena s2) = length (arena s1) + m"
    "addresses s2 = addresses s1 @ map (allocator s1) [0..<m]"
    "allocator s2 = (\<lambda>i. allocator s1 (i + m))"
    using assms(2) by (auto simp: allocated_def)
  have "map (allocator s1) [0..<m] = map (allocator s) [k..<k + m]"
    unfolding k(3) by (rule nth_equalityI) (simp_all add: add.commute)
  moreover have "[0..<k + m] = [0..<k] @ [k..<k + m]"
    using upt_add_eq_append [of 0 k m] by simp
  ultimately have "addresses s2 = addresses s @ map (allocator s) [0..<k + m]"
    by (simp only: m(2) k(2) map_append append_assoc)
  moreover have "allocator s2 = (\<lambda>i. allocator s (i + (k + m)))"
    unfolding m(3) k(3) by (rule ext) (simp only: add.assoc add.commute [of m k])
  moreover have "length (arena s2) = length (arena s) + (k + m)"
    by (simp add: m(1) k(1))
  ultimately show ?thesis
    unfolding allocated_def by blast
qed

lemma allocated_steps [simp]:
  "allocated s (set_actual_begin_time n t s)"
  "allocated s (assert_failure s)"
  by (simp_all add: set_actual_begin_time_def assert_failure_def allocated_def)

lemma allocated_new_PlaybackEvent:
  "allocated s (snd (new_PlaybackEvent time n type s))"
  unfolding allocated_def new_PlaybackEvent_def
  by (intro exI [of _ "Suc 0"]) simp

lemma allocated_update:
  "allocated s s' \<Longrightarrow> allocated s (s'\<lparr>events := e\<rparr>)"
  "allocated s s' \<Longrightarrow> length a = length (arena s') \<Longrightarrow> allocated s (s'\<lparr>arena := a\<rparr>)"
  by (simp_all add: allocated_def)

lemma allocated_push_events: "allocated s (push_events b e n s)"
proof (cases "b = e")
  case True
  obtain i s1 where 1: "new_PlaybackEvent b n PET_instant s = (i, s1)"
    by (cases "new_PlaybackEvent b n PET_instant s")
  have "allocated s s1"
    using allocated_new_PlaybackEvent [of s b n PET_instant] 1 by simp
  then have "allocated s (s1\<lparr>events := events s1 @ [i]\<rparr>)"
    by (rule allocated_update(1))
  then show ?thesis
    using True 1 by (simp add: push_events_def)
next
  case False
  obtain i s1 where 1: "new_PlaybackEvent b n PET_begin s = (i, s1)"
    by (cases "new_PlaybackEvent b n PET_begin s")
  obtain j s2 where 2: "new_PlaybackEvent e n PET_end s1 = (j, s2)"
    by (cases "new_PlaybackEvent e n PET_end s1")
  have "allocated s s1"
    using allocated_new_PlaybackEvent [of s b n PET_begin] 1 by simp
  moreover have "allocated s1 s2"
    using allocated_new_PlaybackEvent [of s1 e n PET_end] 2 by simp
  ultimately have "allocated s s2"
    by (rule allocated_trans)
  then have "allocated s (s2\<lparr>arena := (arena s2)[j := set_begin_event i (arena s2 ! j)]\<rparr>)"
    by (rule allocated_update(2)) simp
  then have "allocated s
      (s2\<lparr>arena := (arena s2)[j := set_begin_event i (arena s2 ! j)],
          events := events s2 @ [i, j]\<rparr>)"
    using allocated_update(1) by fastforce
  then show ?thesis
    using False 1 2 by (simp add: push_events_def Let_def)
qed

lemma allocated_recompute_loop:
  "allocated s (snd (snd (recompute_loop n lb pb pe le s)))"
proof (induction n lb pb pe le s rule: recompute_loop_induct)
  case (stop n lb pb pe le s)
  show ?case
    by (simp add: recompute_loop_stop [OF stop.hyps])
next
  case (null n lb pb pe le s)
  show ?case
    by (simp add: recompute_loop_null [OF null.hyps])
next
  case (action n lb pb pe le s dur bt)
  have "allocated s (push_events bt (bt + dur) n (set_actual_begin_time n bt s))"
    by (rule allocated_trans [OF allocated_steps(1) allocated_push_events])
  from allocated_trans [OF this action.IH]
  show ?case
    by (simp only: recompute_loop_action [OF action.hyps])
next
  case (push n lb pb pe le s bt n1 et s2)
  have "allocated (set_actual_begin_time n bt s) s2"
    using push.IH(1) by (simp only: push.hyps(4) snd_conv)
  then have "allocated s s2"
    by (rule allocated_trans [OF allocated_steps(1)])
  from allocated_trans [OF this push.IH(2)]
  show ?case
    by (simp only: recompute_loop_push [OF push.hyps])
qed

text \<open>
  After a compilation the events of the arena have the addresses that the allocator held
  first, one for each event.
\<close>

lemma addresses_do_recompute:
  "addresses (do_recompute s) = map (allocator s) [0..<length (arena (do_recompute s))]
   \<and> allocator (do_recompute s) = (\<lambda>i. allocator s (i + length (arena (do_recompute s))))"
proof -
  let ?c = "clear_events (s\<lparr>dirty := False\<rparr>)"
  obtain n le s2 where r: "recompute_loop 0 0 0 0 0 ?c = (n, le, s2)"
    by (cases "recompute_loop 0 0 0 0 0 ?c") auto
  have "allocated ?c s2"
    using allocated_recompute_loop [of ?c 0 0 0 0 0] r by simp
  then show ?thesis
    by (auto simp: do_recompute_parts [OF r] allocated_def clear_events_def)
qed

text \<open>The playback operations insert into sets that are in the order of the addresses.\<close>

lemma pset_insert_sorted:
  "sorted (map addr xs) \<Longrightarrow> sorted (map addr (fst (pset_insert addr p xs)))"
  by (simp add: pset_insert_def sorted_insort_key)

lemma pset_erase_sorted:
  "sorted (map addr xs) \<Longrightarrow> sorted (map addr (fst (pset_erase p xs)))"
  by (simp add: pset_erase_def removeAll_filter_not_eq sorted_filter)

end
